theory Spec2Isabelle
  imports Main
begin

section \<open>Python values the data processor relies on\<close>

text \<open>
  The exceptions that the modelled code of \<^verbatim>\<open>lightning/data/cache/processor.py\<close> can raise.
\<close>

datatype py_error =
  ValueError | ZeroDivisionError | IndexError | TypeError | IsADirectoryError
  | FileExistsError | FileNotFoundError | PermissionError | UnicodeEncodeError | ClientError

text \<open>Python's \<^verbatim>\<open>a // b\<close> on integers: floor division, raising on a zero divisor.\<close>

definition py_floordiv :: "int \<Rightarrow> int \<Rightarrow> py_error + int" where
  "py_floordiv a b = (if b = 0 then Inl ZeroDivisionError else Inr (a div b))"

text \<open>Python's \<^verbatim>\<open>range(n)\<close>: empty when \<open>n \<le> 0\<close>.\<close>

definition py_range :: "int \<Rightarrow> int list" where
  "py_range n = map int [0..<nat n]"

text \<open>
  Python's \<^verbatim>\<open>xs[b:e]\<close>: a negative bound counts from the end, both bounds are clamped
  to the list, and an empty list results when the bounds cross.
\<close>

definition py_slice :: "'a list \<Rightarrow> int \<Rightarrow> int \<Rightarrow> 'a list" where
  "py_slice xs b e =
     (let n = int (length xs);
          b' = (if b < 0 then max 0 (n + b) else min b n);
          e' = (if e < 0 then max 0 (n + e) else min e n)
      in take (nat (e' - b')) (drop (nat b') xs))"

definition len :: "'a list \<Rightarrow> int" where
  "len xs = int (length xs)"

section \<open>DataProcessor._associated_items_to_workers\<close>

text \<open>
  The inner loop over \<^verbatim>\<open>range(self.num_workers)\<close> (lines 429-434). It appends one slice
  and one begin per worker index to the two accumulators. The slice is taken from
  \<^verbatim>\<open>user_items\<close>, as line 433 does, with bounds computed from the length of
  \<^verbatim>\<open>node_user_items\<close>.
\<close>

fun workers_loop ::
  "'a list \<Rightarrow> 'a list \<Rightarrow> int \<Rightarrow> int \<Rightarrow> int list \<Rightarrow> int list \<times> 'a list list
     \<Rightarrow> int list \<times> 'a list list" where
  "workers_loop user_items node_user_items num_workers worker_size [] (begins, workers_user_items) =
     (begins, workers_user_items)"
| "workers_loop user_items node_user_items num_workers worker_size (worker_idx # rest)
       (begins, workers_user_items) =
     (let is_last = (worker_idx = num_workers - 1);
          begin_w = worker_idx * worker_size;
          end_w = (if is_last then len node_user_items else (worker_idx + 1) * worker_size)
      in workers_loop user_items node_user_items num_workers worker_size rest
           (begins @ [begin_w], workers_user_items @ [py_slice user_items begin_w end_w]))"

text \<open>The slice of the item list that belongs to one node (lines 424-427).\<close>

definition node_user_items :: "int \<Rightarrow> int \<Rightarrow> int \<Rightarrow> 'a list \<Rightarrow> 'a list" where
  "node_user_items num_nodes node_size node_rank user_items =
     (let is_last_node = (node_rank = num_nodes - 1);
          start_node = node_rank * node_size;
          end_node = (if is_last_node then len user_items else (node_rank + 1) * node_size)
      in py_slice user_items start_node end_node)"

text \<open>
  The outer loop over \<^verbatim>\<open>range(num_nodes)\<close> (lines 421-435). Ranks other than the current
  one are skipped; the body returns at the current rank. Falling off the end of the loop
  is Python's implicit \<^verbatim>\<open>return None\<close>, the value \<open>Inr None\<close> here.
\<close>

fun nodes_loop ::
  "int \<Rightarrow> int \<Rightarrow> int \<Rightarrow> int \<Rightarrow> 'a list \<Rightarrow> int list
     \<Rightarrow> py_error + (int list \<times> 'a list list) option" where
  "nodes_loop num_nodes current_node_rank node_size num_workers user_items [] = Inr None"
| "nodes_loop num_nodes current_node_rank node_size num_workers user_items (node_rank # rest) =
     (if node_rank \<noteq> current_node_rank
      then nodes_loop num_nodes current_node_rank node_size num_workers user_items rest
      else
        (let nui = node_user_items num_nodes node_size node_rank user_items
         in case py_floordiv (len nui) num_workers of
              Inl e \<Rightarrow> Inl e
            | Inr worker_size \<Rightarrow>
                Inr (Some (workers_loop user_items nui num_workers worker_size
                             (py_range num_workers) ([], [])))))"

text \<open>
  The method itself. \<open>num_nodes\<close> and \<open>current_node_rank\<close> are the integers read from the
  environment variables \<^verbatim>\<open>NUM_NODES\<close> and \<^verbatim>\<open>NODE_RANK\<close>; \<open>num_workers\<close> is
  \<^verbatim>\<open>self.num_workers\<close>.
\<close>

definition associated_items_to_workers ::
  "int \<Rightarrow> int \<Rightarrow> int \<Rightarrow> 'a list \<Rightarrow> py_error + (int list \<times> 'a list list) option" where
  "associated_items_to_workers num_nodes current_node_rank num_workers user_items =
     (case py_floordiv (len user_items) num_nodes of
        Inl e \<Rightarrow> Inl e
      | Inr node_size \<Rightarrow>
          nodes_loop num_nodes current_node_rank node_size num_workers user_items
            (py_range num_nodes))"

text \<open>
  Line 310 of \<^verbatim>\<open>DataProcessor.run\<close>: the result is unpacked into two names, which raises
  a \<^verbatim>\<open>TypeError\<close> when the method returned \<^verbatim>\<open>None\<close>.
\<close>

definition run_associate ::
  "int \<Rightarrow> int \<Rightarrow> int \<Rightarrow> 'a list \<Rightarrow> py_error + (int list \<times> 'a list list)" where
  "run_associate num_nodes current_node_rank num_workers user_items =
     (case associated_items_to_workers num_nodes current_node_rank num_workers user_items of
        Inl e \<Rightarrow> Inl e
      | Inr None \<Rightarrow> Inl TypeError
      | Inr (Some (begins, workers_user_items)) \<Rightarrow> Inr (begins, workers_user_items))"

section \<open>Strings, queues and the file system\<close>

text \<open>Python's \<^verbatim>\<open>s.startswith(p)\<close>.\<close>

definition startswith :: "string \<Rightarrow> string \<Rightarrow> bool" where
  "startswith s p = (take (length p) s = p)"

text \<open>
  Python's \<^verbatim>\<open>s.replace(old, new)\<close>: every occurrence of \<open>old\<close> is replaced, scanning
  from the left without overlaps; an empty \<open>old\<close> matches before every character and at
  the end.
\<close>

fun replace_from :: "string \<Rightarrow> string \<Rightarrow> string \<Rightarrow> string" where
  "replace_from old new [] = []"
| "replace_from old new (c # cs) =
     (if old \<noteq> [] \<and> startswith (c # cs) old
      then new @ replace_from old new (drop (length old - 1) cs)
      else c # replace_from old new cs)"

definition py_replace :: "string \<Rightarrow> string \<Rightarrow> string \<Rightarrow> string" where
  "py_replace s old new =
     (if old = [] then new @ concat (map (\<lambda>c. c # new) s) else replace_from old new s)"

text \<open>
  Python's \<^verbatim>\<open>xs[i]\<close> for an index that is not negative: an \<^verbatim>\<open>IndexError\<close> beyond the
  end of the list.
\<close>

definition py_index :: "'a list \<Rightarrow> nat \<Rightarrow> py_error + 'a" where
  "py_index xs i = (if i < length xs then Inr (xs ! i) else Inl IndexError)"

text \<open>
  How a function that reads a queue ends: it returns, it raises, or it waits forever on
  \<^verbatim>\<open>Queue.get()\<close> because the queue holds no further message. Each case carries the
  state reached.
\<close>

datatype 's outcome = Returned 's | Raised py_error 's | Blocked 's

text \<open>
  POSIX \<^verbatim>\<open>os.path.dirname\<close>: the part before the last slash, with trailing slashes
  removed unless it consists of slashes only.
\<close>

definition py_dirname :: "string \<Rightarrow> string" where
  "py_dirname p =
     (let head = rev (dropWhile (\<lambda>c. c \<noteq> CHR ''/'') (rev p))
      in if head \<noteq> [] \<and> \<not> list_all (\<lambda>c. c = CHR ''/'') head
         then rev (dropWhile (\<lambda>c. c = CHR ''/'') (rev head))
         else head)"

section \<open>The downloader process\<close>

text \<open>
  What a downloader works on. The file system is the set of paths that exist
  (\<^verbatim>\<open>os.path.exists\<close> is membership); \<open>requests\<close> lists the calls of
  \<^verbatim>\<open>s3.download_fileobj\<close> in order, each with the remote path it was parsed from and
  the local path it writes; \<open>queue_out\<close> lists what was put on the ready queue. The calls
  into the operating system and into boto3 are taken to succeed: \<^verbatim>\<open>os.makedirs\<close> leaves
  the directory existing and the download leaves the local file existing.
\<close>

record 'i downloader =
  fs :: "string set"
  requests :: "(string \<times> string) list"
  queue_out :: "'i option list"

text \<open>
  The loop of lines 44-58 over the paths of one work unit. \<open>scheme\<close> stands for
  \<^verbatim>\<open>urllib.parse.urlparse(remote_path).scheme\<close>, a function of the standard library.
\<close>

fun download_paths ::
  "(string \<Rightarrow> string) \<Rightarrow> string \<Rightarrow> string \<Rightarrow> string \<Rightarrow> string list \<Rightarrow> 'i downloader
     \<Rightarrow> 'i downloader outcome" where
  "download_paths scheme root remote_root cache_dir [] st = Returned st"
| "download_paths scheme root remote_root cache_dir (path # rest) st =
     (let remote_path = py_replace path root remote_root
      in if scheme remote_path \<noteq> ''s3'' then Raised ValueError st
         else
           (let local_path = py_replace path root cache_dir;
                dirpath = py_dirname local_path
            in download_paths scheme root remote_root cache_dir rest
                 (st\<lparr>fs := insert local_path (insert dirpath (fs st)),
                     requests := requests st @ [(remote_path, local_path)]\<rparr>)))"

text \<open>
  \<^verbatim>\<open>_download_data_target\<close> (lines 26-60), run on the messages that its input queue
  delivers, in order.
\<close>

fun download_data_target ::
  "(string \<Rightarrow> string) \<Rightarrow> string \<Rightarrow> string \<Rightarrow> string \<Rightarrow> ('i \<times> string list) option list
     \<Rightarrow> 'i downloader \<Rightarrow> 'i downloader outcome" where
  "download_data_target scheme root remote_root cache_dir [] st = Blocked st"
| "download_data_target scheme root remote_root cache_dir (None # queue_in) st =
     Returned (st\<lparr>queue_out := queue_out st @ [None]\<rparr>)"
| "download_data_target scheme root remote_root cache_dir (Some (index, paths) # queue_in) st =
     (if list_all (\<lambda>p. py_replace p root cache_dir \<in> fs st) paths
      then download_data_target scheme root remote_root cache_dir queue_in
             (st\<lparr>queue_out := queue_out st @ [Some index]\<rparr>)
      else
        (case download_paths scheme root remote_root cache_dir paths st of
           Returned st' \<Rightarrow>
             download_data_target scheme root remote_root cache_dir queue_in
               (st'\<lparr>queue_out := queue_out st' @ [Some index]\<rparr>)
         | Raised e st' \<Rightarrow> Raised e st'
         | Blocked st' \<Rightarrow> Blocked st'))"

section \<open>The downloader and the remover on an operating system whose calls may fail\<close>

text \<open>
  The calls that \<^verbatim>\<open>_download_data_target\<close> and \<^verbatim>\<open>_remove_target\<close> make into the
  standard library, the operating system and boto3, as parameters: nothing is fixed about
  them. \<open>'fs\<close> is the state of the disk. \<open>boto3_client\<close> tells the exception of
  \<^verbatim>\<open>boto3.client("s3")\<close>, if it raises; \<open>path_exists\<close> is \<^verbatim>\<open>os.path.exists\<close>;
  \<open>urlparse\<close> gives the scheme of \<^verbatim>\<open>urllib.parse.urlparse(remote_path)\<close> or its
  exception; \<open>makedirs\<close> is \<^verbatim>\<open>os.makedirs(dirpath, exist_ok=True)\<close>, \<open>open_wb\<close> is
  \<^verbatim>\<open>open(local_path, "wb")\<close>, \<open>download_fileobj\<close> is the body of the \<^verbatim>\<open>with\<close> block
  together with the closing of the file, given the remote and the local path, and
  \<open>os_remove\<close> is \<^verbatim>\<open>os.remove\<close>: each gives the disk it leaves, or the exception it
  raises.
\<close>

record 'fs os_calls =
  boto3_client :: "py_error option"
  path_exists :: "'fs \<Rightarrow> string \<Rightarrow> bool"
  urlparse :: "string \<Rightarrow> py_error + string"
  makedirs :: "string \<Rightarrow> 'fs \<Rightarrow> py_error + 'fs"
  open_wb :: "string \<Rightarrow> 'fs \<Rightarrow> py_error + 'fs"
  download_fileobj :: "string \<Rightarrow> string \<Rightarrow> 'fs \<Rightarrow> py_error + 'fs"
  os_remove :: "string \<Rightarrow> 'fs \<Rightarrow> py_error + 'fs"

text \<open>
  What a downloader works on: the disk, in \<open>os_requests\<close> the calls of
  \<^verbatim>\<open>s3.download_fileobj\<close> in order, each with the remote path it was parsed from and
  the local path it writes, and in \<open>os_queue_out\<close> what was put on the ready queue.
\<close>

record ('fs, 'i) os_downloader =
  os_disk :: 'fs
  os_requests :: "(string \<times> string) list"
  os_queue_out :: "'i option list"

text \<open>
  The loop of lines 44-58 over the paths of one work unit. An exception ends it with the
  disk that the calls before have left; a download that raises has been requested.
\<close>

fun download_paths_os ::
  "'fs os_calls \<Rightarrow> string \<Rightarrow> string \<Rightarrow> string \<Rightarrow> string list \<Rightarrow> ('fs, 'i) os_downloader
     \<Rightarrow> ('fs, 'i) os_downloader outcome" where
  "download_paths_os os root remote_root cache_dir [] st = Returned st"
| "download_paths_os os root remote_root cache_dir (path # rest) st =
     (let remote_path = py_replace path root remote_root
      in case urlparse os remote_path of
           Inl e \<Rightarrow> Raised e st
         | Inr obj_scheme \<Rightarrow>
             if obj_scheme \<noteq> ''s3'' then Raised ValueError st
             else
               (let local_path = py_replace path root cache_dir;
                    dirpath = py_dirname local_path
                in case makedirs os dirpath (os_disk st) of
                     Inl e \<Rightarrow> Raised e st
                   | Inr d1 \<Rightarrow>
                       (case open_wb os local_path d1 of
                          Inl e \<Rightarrow> Raised e (st\<lparr>os_disk := d1\<rparr>)
                        | Inr d2 \<Rightarrow>
                            (case download_fileobj os remote_path local_path d2 of
                               Inl e \<Rightarrow>
                                 Raised e
                                   (st\<lparr>os_disk := d2,
                                       os_requests := os_requests st @ [(remote_path, local_path)]\<rparr>)
                             | Inr d3 \<Rightarrow>
                                 download_paths_os os root remote_root cache_dir rest
                                   (st\<lparr>os_disk := d3,
                                       os_requests :=
                                         os_requests st @ [(remote_path, local_path)]\<rparr>)))))"

text \<open>The loop of lines 29-60 on the messages that the input queue delivers, in order.\<close>

fun download_units_os ::
  "'fs os_calls \<Rightarrow> string \<Rightarrow> string \<Rightarrow> string \<Rightarrow> ('i \<times> string list) option list
     \<Rightarrow> ('fs, 'i) os_downloader \<Rightarrow> ('fs, 'i) os_downloader outcome" where
  "download_units_os os root remote_root cache_dir [] st = Blocked st"
| "download_units_os os root remote_root cache_dir (None # queue_in) st =
     Returned (st\<lparr>os_queue_out := os_queue_out st @ [None]\<rparr>)"
| "download_units_os os root remote_root cache_dir (Some (index, paths) # queue_in) st =
     (if list_all (\<lambda>p. path_exists os (os_disk st) (py_replace p root cache_dir)) paths
      then download_units_os os root remote_root cache_dir queue_in
             (st\<lparr>os_queue_out := os_queue_out st @ [Some index]\<rparr>)
      else
        (case download_paths_os os root remote_root cache_dir paths st of
           Returned st' \<Rightarrow>
             download_units_os os root remote_root cache_dir queue_in
               (st'\<lparr>os_queue_out := os_queue_out st' @ [Some index]\<rparr>)
         | Raised e st' \<Rightarrow> Raised e st'
         | Blocked st' \<Rightarrow> Blocked st'))"

text \<open>
  \<^verbatim>\<open>_download_data_target\<close> (lines 26-60) with these calls: the client is created, then
  the loop runs.
\<close>

definition download_data_target_os ::
  "'fs os_calls \<Rightarrow> string \<Rightarrow> string \<Rightarrow> string \<Rightarrow> ('i \<times> string list) option list
     \<Rightarrow> ('fs, 'i) os_downloader \<Rightarrow> ('fs, 'i) os_downloader outcome" where
  "download_data_target_os os root remote_root cache_dir queue_in st =
     (case boto3_client os of
        Some e \<Rightarrow> Raised e st
      | None \<Rightarrow> download_units_os os root remote_root cache_dir queue_in st)"

text \<open>
  The remover's view: the disk and, in \<open>rm_calls\<close>, the calls of \<^verbatim>\<open>os.remove\<close> in
  order.
\<close>

record 'fs remover =
  rm_disk :: 'fs
  rm_calls :: "string list"

text \<open>The loop of lines 70-74 over the paths of one message.\<close>

fun remove_paths ::
  "'fs os_calls \<Rightarrow> string \<Rightarrow> string \<Rightarrow> string list \<Rightarrow> 'fs remover \<Rightarrow> 'fs remover outcome" where
  "remove_paths os root cache_dir [] st = Returned st"
| "remove_paths os root cache_dir (path # rest) st =
     (let cached_filepath = py_replace path root cache_dir
      in if path_exists os (rm_disk st) cached_filepath
         then
           (case os_remove os cached_filepath (rm_disk st) of
              Inl e \<Rightarrow> Raised e (st\<lparr>rm_calls := rm_calls st @ [cached_filepath]\<rparr>)
            | Inr d \<Rightarrow>
                remove_paths os root cache_dir rest
                  (st\<lparr>rm_disk := d, rm_calls := rm_calls st @ [cached_filepath]\<rparr>))
         else remove_paths os root cache_dir rest st)"

text \<open>\<^verbatim>\<open>_remove_target\<close> (lines 63-74), run on the messages of its input queue.\<close>

fun remove_target ::
  "'fs os_calls \<Rightarrow> string \<Rightarrow> string \<Rightarrow> string list option list \<Rightarrow> 'fs remover
     \<Rightarrow> 'fs remover outcome" where
  "remove_target os root cache_dir [] st = Blocked st"
| "remove_target os root cache_dir (None # queue_in) st = Returned st"
| "remove_target os root cache_dir (Some paths # queue_in) st =
     (case remove_paths os root cache_dir paths st of
        Returned st' \<Rightarrow> remove_target os root cache_dir queue_in st'
      | Raised e st' \<Rightarrow> Raised e st'
      | Blocked st' \<Rightarrow> Blocked st')"

section \<open>Items\<close>

text \<open>
  A dataset item is a nested structure of containers with scalars and strings at the
  leaves. \<^verbatim>\<open>tree_flatten\<close> and \<^verbatim>\<open>tree_unflatten\<close> belong to torch; they are modelled
  by what they do to such a structure: the first returns the leaves from left to right
  and the shape, the second checks the number of leaves against the shape and rebuilds.
\<close>

datatype element = PyStr string | PyInt int | PyNone

datatype container = ListC | TupleC | DictC "string list"

datatype item = Leaf element | Node container "item list"

datatype treespec = LeafSpec | NodeSpec container "treespec list"

fun tree_leaves :: "item \<Rightarrow> element list" where
  "tree_leaves (Leaf e) = [e]"
| "tree_leaves (Node c ts) = concat (map tree_leaves ts)"

fun tree_spec :: "item \<Rightarrow> treespec" where
  "tree_spec (Leaf e) = LeafSpec"
| "tree_spec (Node c ts) = NodeSpec c (map tree_spec ts)"

definition tree_flatten :: "item \<Rightarrow> element list \<times> treespec" where
  "tree_flatten t = (tree_leaves t, tree_spec t)"

fun num_leaves :: "treespec \<Rightarrow> nat" where
  "num_leaves LeafSpec = 1"
| "num_leaves (NodeSpec c specs) = sum_list (map num_leaves specs)"

fun unflatten :: "treespec \<Rightarrow> element list \<Rightarrow> item"
  and unflatten_children :: "treespec list \<Rightarrow> element list \<Rightarrow> item list" where
  "unflatten LeafSpec leaves = (case leaves of e # _ \<Rightarrow> Leaf e | [] \<Rightarrow> Leaf PyNone)"
| "unflatten (NodeSpec c specs) leaves = Node c (unflatten_children specs leaves)"
| "unflatten_children [] leaves = []"
| "unflatten_children (spec # specs) leaves =
     unflatten spec (take (num_leaves spec) leaves)
       # unflatten_children specs (drop (num_leaves spec) leaves)"

text \<open>
  \<^verbatim>\<open>tree_unflatten\<close> raises a \<^verbatim>\<open>ValueError\<close> when the number of leaves differs from
  what the shape holds, so the empty case of \<open>unflatten\<close> is never reached through it.
\<close>

definition tree_unflatten :: "element list \<Rightarrow> treespec \<Rightarrow> py_error + item" where
  "tree_unflatten leaves spec =
     (if length leaves \<noteq> num_leaves spec then Inl ValueError else Inr (unflatten spec leaves))"

section \<open>BaseWorker\<close>

text \<open>
  What a cache slot holds: the result of \<^verbatim>\<open>prepare_item\<close>, or the item itself when the
  worker has no \<^verbatim>\<open>prepare_item\<close>.
\<close>

datatype 'v stored = Prepared 'v | Raw item

text \<open>
  The effects of the worker's main loop that other processes or the cache observe, in
  the order in which the loop performs them.
\<close>

datatype effect = CacheWrite int | RemovePut "string list option" | CacheDone

text \<open>
  The fields of \<^verbatim>\<open>BaseWorker\<close>. A queue is the list of the messages put on it, oldest
  first. The ready queue is read by the main loop and written by the downloader
  processes; the messages it delivers are an argument of the loop.

  Modelled from the spec: the class \<^verbatim>\<open>Cache\<close> is not among the sources. The spec describes
  it as an object that accepts \<^verbatim>\<open>cache[index] = value\<close>; \<open>self_cache\<close> is the map from
  slots to the values assigned, and \<open>self_cache_done\<close> records the call of
  \<^verbatim>\<open>cache.done()\<close>.
\<close>

record 'v worker =
  self_index :: int
  self_start_index :: int
  self_node_rank :: int
  self_prepare_item :: "(item \<Rightarrow> 'v) option"
  self_root :: string
  self_remote_root :: string
  self_items :: "item list"
  self_num_downloaders :: int
  self_remove :: bool
  self_paths :: "string list list"
  self_remover :: bool
  self_downloaders :: nat
  self_to_download_queues :: "(nat \<times> string list) option list list"
  self_remove_queue :: "string list option list"
  self_collected_items :: nat
  self_counter :: nat
  self_worker_queue :: "(int \<times> nat) list option"
  self_cache :: "int \<rightharpoonup> 'v stored"
  self_cache_done :: bool
  self_cache_dir :: string
  self_effects :: "effect list"

text \<open>\<^verbatim>\<open>BaseWorker.__init__\<close> (lines 78-115).\<close>

definition base_worker ::
  "int \<Rightarrow> int \<Rightarrow> int \<Rightarrow> (item \<Rightarrow> 'v) option \<Rightarrow> string \<Rightarrow> string \<Rightarrow> item list
     \<Rightarrow> (int \<times> nat) list option \<Rightarrow> int \<Rightarrow> bool \<Rightarrow> 'v worker" where
  "base_worker index start_index node_rank prepare_item root remote_root items worker_queue
       num_downloaders remove =
     \<lparr>self_index = index, self_start_index = start_index, self_node_rank = node_rank,
      self_prepare_item = prepare_item, self_root = root, self_remote_root = remote_root,
      self_items = items, self_num_downloaders = num_downloaders, self_remove = remove,
      self_paths = [], self_remover = False, self_downloaders = 0,
      self_to_download_queues = [], self_remove_queue = [], self_collected_items = 0,
      self_counter = 0, self_worker_queue = worker_queue, self_cache = Map.empty,
      self_cache_done = False, self_cache_dir = [], self_effects = []\<rparr>"

text \<open>
  \<^verbatim>\<open>_create_cache\<close> (lines 144-157): a fresh cache and the directory for downloaded
  files, named after the hash of the root. \<open>sha256_hexdigest\<close> stands for the digest of
  \<^verbatim>\<open>hashlib\<close>.
\<close>

definition create_cache :: "(string \<Rightarrow> string) \<Rightarrow> 'v worker \<Rightarrow> 'v worker" where
  "create_cache sha256_hexdigest w =
     (let root_hash = sha256_hexdigest (self_root w)
      in w\<lparr>self_cache := Map.empty, self_cache_done := False,
           self_cache_dir := ''/cache/'' @ root_hash @ ''/data''\<rparr>)"

text \<open>
  The dictionary comprehension of lines 167-171: the positions and values of the
  flattened elements that are strings starting with the root, in order.
\<close>

definition path_entry :: "string \<Rightarrow> nat \<times> element \<Rightarrow> (nat \<times> string) list" where
  "path_entry root entry =
     (case entry of
        (index, PyStr s) \<Rightarrow> (if startswith s root then [(index, s)] else [])
      | (index, _) \<Rightarrow> [])"

definition indexed_paths :: "string \<Rightarrow> element list \<Rightarrow> (nat \<times> string) list" where
  "indexed_paths root flattened_item = concat (map (path_entry root) (enumerate 0 flattened_item))"

text \<open>
  The loop of \<^verbatim>\<open>_collect_paths\<close> (lines 161-186) over the items that remain; \<open>items\<close>
  is the local list of rewritten items.
\<close>

fun collect_loop :: "'v worker \<Rightarrow> item list \<Rightarrow> item list \<Rightarrow> 'v worker outcome" where
  "collect_loop w [] items = Returned (w\<lparr>self_items := items\<rparr>)"
| "collect_loop w (item # rest) items =
     (let (flattened_item, spec) = tree_flatten item;
          indexed = indexed_paths (self_root w) flattened_item
      in if length indexed = 0 then Raised ValueError w
         else
           (let flattened_item' =
                  fold (\<lambda>(index, path) fl.
                          fl[index := PyStr (py_replace path (self_root w) (self_cache_dir w))])
                    indexed flattened_item;
                paths = map snd indexed;
                w' = w\<lparr>self_paths := self_paths w @ [paths]\<rparr>
            in case tree_unflatten flattened_item' spec of
                 Inl e \<Rightarrow> Raised e w'
               | Inr item' \<Rightarrow>
                   collect_loop (w'\<lparr>self_collected_items := self_collected_items w' + 1\<rparr>)
                     rest (items @ [item'])))"

definition collect_paths :: "'v worker \<Rightarrow> 'v worker outcome" where
  "collect_paths w = collect_loop w (self_items w) []"

text \<open>
  Python's list indexing with an integer that may be negative: the position read, if
  there is one.
\<close>

definition py_position :: "'a list \<Rightarrow> int \<Rightarrow> nat option" where
  "py_position xs i =
     (if 0 \<le> i \<and> i < len xs then Some (nat i)
      else if i < 0 \<and> - len xs \<le> i then Some (nat (len xs + i))
      else None)"

text \<open>
  The loop of lines 201-202: each work unit goes to the queue numbered
  \<^verbatim>\<open>index % self.num_downloaders\<close>.
\<close>

fun put_units ::
  "int \<Rightarrow> (nat \<times> string list) list \<Rightarrow> (nat \<times> string list) option list list
     \<Rightarrow> (nat \<times> string list) option list list outcome" where
  "put_units num_downloaders [] queues = Returned queues"
| "put_units num_downloaders ((index, paths) # rest) queues =
     (if num_downloaders = 0 then Raised ZeroDivisionError queues
      else
        (case py_position queues (int index mod num_downloaders) of
           None \<Rightarrow> Raised IndexError queues
         | Some j \<Rightarrow>
             put_units num_downloaders rest (queues[j := queues ! j @ [Some (index, paths)]])))"

text \<open>The loop of lines 204-205: one \<^verbatim>\<open>None\<close> for each queue.\<close>

fun put_sentinels ::
  "int list \<Rightarrow> (nat \<times> string list) option list list
     \<Rightarrow> (nat \<times> string list) option list list outcome" where
  "put_sentinels [] queues = Returned queues"
| "put_sentinels (downloader_index # rest) queues =
     (case py_position queues downloader_index of
        None \<Rightarrow> Raised IndexError queues
      | Some j \<Rightarrow> put_sentinels rest (queues[j := queues ! j @ [None]]))"

text \<open>
  \<^verbatim>\<open>_start_downloaders\<close> (lines 190-205). The first loop creates one queue and one
  process per downloader; what the processes do with their queues is
  \<open>download_data_target\<close>.
\<close>

definition start_downloaders :: "'v worker \<Rightarrow> 'v worker outcome" where
  "start_downloaders w =
     (let n = self_num_downloaders w;
          w1 = w\<lparr>self_downloaders := self_downloaders w + length (py_range n),
                 self_to_download_queues := self_to_download_queues w @ map (\<lambda>_. []) (py_range n)\<rparr>
      in case put_units n (enumerate 0 (self_paths w1)) (self_to_download_queues w1) of
           Raised e queues \<Rightarrow> Raised e (w1\<lparr>self_to_download_queues := queues\<rparr>)
         | Blocked queues \<Rightarrow> Blocked (w1\<lparr>self_to_download_queues := queues\<rparr>)
         | Returned queues \<Rightarrow>
             (case put_sentinels (py_range n) queues of
                Raised e queues' \<Rightarrow> Raised e (w1\<lparr>self_to_download_queues := queues'\<rparr>)
              | Blocked queues' \<Rightarrow> Blocked (w1\<lparr>self_to_download_queues := queues'\<rparr>)
              | Returned queues' \<Rightarrow> Returned (w1\<lparr>self_to_download_queues := queues'\<rparr>)))"

text \<open>\<^verbatim>\<open>_start_remover\<close> (lines 207-217).\<close>

definition start_remover :: "'v worker \<Rightarrow> 'v worker" where
  "start_remover w = (if self_remove w then w\<lparr>self_remover := True\<rparr> else w)"

text \<open>
  What the main loop does with an index taken from the ready queue (lines 134-142): the
  cache slot is assigned, the counter is advanced and reported, and with \<^verbatim>\<open>remove\<close>
  set the paths of the item are put on the remove queue.
\<close>

definition process_index :: "'v worker \<Rightarrow> nat \<Rightarrow> 'v worker outcome" where
  "process_index w r =
     (case py_index (self_items w) r of
        Inl e \<Rightarrow> Raised e w
      | Inr item \<Rightarrow>
          (let v = (case self_prepare_item w of
                      Some prepare_item \<Rightarrow> Prepared (prepare_item item)
                    | None \<Rightarrow> Raw item);
               w1 = w\<lparr>self_cache := (self_cache w)(int r + self_start_index w \<mapsto> v),
                      self_effects := self_effects w @ [CacheWrite (int r + self_start_index w)]\<rparr>;
               w2 = w1\<lparr>self_counter := self_counter w1 + 1\<rparr>;
               w3 = (case self_worker_queue w2 of
                       Some q \<Rightarrow> w2\<lparr>self_worker_queue := Some (q @ [(self_index w2, self_counter w2)])\<rparr>
                     | None \<Rightarrow> w2)
           in if self_remove w3
              then (case py_index (self_paths w3) r of
                      Inl e \<Rightarrow> Raised e w3
                    | Inr paths \<Rightarrow>
                        Returned (w3\<lparr>self_remove_queue := self_remove_queue w3 @ [Some paths],
                                     self_effects := self_effects w3 @ [RemovePut (Some paths)]\<rparr>))
              else Returned w3))"

text \<open>
  The main loop of \<^verbatim>\<open>BaseWorker.run\<close> (lines 123-142), on the messages that the ready
  queue delivers, in order of arrival.
\<close>

fun run_loop :: "'v worker \<Rightarrow> int \<Rightarrow> nat option list \<Rightarrow> 'v worker outcome" where
  "run_loop w is_none [] = Blocked w"
| "run_loop w is_none (None # ready) =
     (if is_none + 1 = self_num_downloaders w
      then Returned (w\<lparr>self_remove_queue := self_remove_queue w @ [None],
                       self_cache_done := True,
                       self_effects := self_effects w @ [RemovePut None, CacheDone]\<rparr>)
      else run_loop w (is_none + 1) ready)"
| "run_loop w is_none (Some r # ready) =
     (case process_index w r of
        Returned w' \<Rightarrow> run_loop w' is_none ready
      | Raised e w' \<Rightarrow> Raised e w'
      | Blocked w' \<Rightarrow> Blocked w')"

text \<open>
  \<^verbatim>\<open>BaseWorker.run\<close> (lines 117-142). \<open>ready\<close> lists what the downloaders put on the
  ready queue, in order of arrival.
\<close>

definition run :: "(string \<Rightarrow> string) \<Rightarrow> 'v worker \<Rightarrow> nat option list \<Rightarrow> 'v worker outcome" where
  "run sha256_hexdigest w ready =
     (case collect_paths (create_cache sha256_hexdigest w) of
        Raised e w1 \<Rightarrow> Raised e w1
      | Blocked w1 \<Rightarrow> Blocked w1
      | Returned w1 \<Rightarrow>
          (case start_downloaders w1 of
             Raised e w2 \<Rightarrow> Raised e w2
           | Blocked w2 \<Rightarrow> Blocked w2
           | Returned w2 \<Rightarrow> run_loop (start_remover w2) 0 ready))"

section \<open>DataProcessor._cached_list_filepaths\<close>

text \<open>
  The disk as this method sees it: the text files with their contents, the directories,
  and in \<open>walked\<close> the roots that \<^verbatim>\<open>os.walk\<close> was called on, in order.
\<close>

record disk =
  files :: "string \<rightharpoonup> string"
  dirs :: "string set"
  walked :: "string list"

text \<open>POSIX \<^verbatim>\<open>os.path.join\<close> of two components.\<close>

definition os_path_join :: "string \<Rightarrow> string \<Rightarrow> string" where
  "os_path_join a b =
     (if startswith b ''/'' then b
      else if a = [] \<or> last a = CHR ''/'' then a @ b
      else a @ ''/'' @ b)"

text \<open>
  Reading a file opened in text mode with the default \<^verbatim>\<open>newline=None\<close>: a carriage
  return, alone or followed by a line feed, arrives as one line feed.
\<close>

fun universal_newlines :: "string \<Rightarrow> string" where
  "universal_newlines [] = []"
| "universal_newlines [c] = (if c = CHR 0x0D then [CHR 0x0A] else [c])"
| "universal_newlines (c # d # cs) =
     (if c = CHR 0x0D \<and> d = CHR 0x0A then CHR 0x0A # universal_newlines cs
      else if c = CHR 0x0D then CHR 0x0A # universal_newlines (d # cs)
      else c # universal_newlines (d # cs))"

text \<open>
  \<^verbatim>\<open>f.readlines()\<close>: the lines of the text, each with its line feed; \<open>line\<close> holds
  the characters of the line being read.
\<close>

fun readlines :: "string \<Rightarrow> string \<Rightarrow> string list" where
  "readlines line [] = (if line = [] then [] else [line])"
| "readlines line (c # cs) =
     (if c = CHR 0x0A then (line @ [c]) # readlines [] cs else readlines (line @ [c]) cs)"

text \<open>
  Which calls of the method into the operating system fail is the environment's choice:
  for a call and the disk it meets, each field tells the exception raised, if any.
  \<open>write_error\<close> is asked with the text that \<^verbatim>\<open>f.write\<close> is given; a text that the
  default encoding cannot encode raises a \<^verbatim>\<open>UnicodeEncodeError\<close> there.
\<close>

record os_errors =
  makedirs_error :: "string \<Rightarrow> disk \<Rightarrow> py_error option"
  open_read_error :: "string \<Rightarrow> disk \<Rightarrow> py_error option"
  open_write_error :: "string \<Rightarrow> disk \<Rightarrow> py_error option"
  write_error :: "string \<Rightarrow> disk \<Rightarrow> py_error option"

text \<open>
  The loop of lines 459-460 on the file opened at line 458; \<open>written\<close> is the text
  written so far. An exception leaves the \<^verbatim>\<open>with\<close> block, which closes the file with
  what was written before.
\<close>

fun write_lines ::
  "os_errors \<Rightarrow> string \<Rightarrow> string list \<Rightarrow> string \<Rightarrow> disk \<Rightarrow> py_error option \<times> disk" where
  "write_lines os path [] written d = (None, d\<lparr>files := (files d)(path \<mapsto> written)\<rparr>)"
| "write_lines os path (filepath # rest) written d =
     (case write_error os (filepath @ [CHR 0x0A]) (d\<lparr>files := (files d)(path \<mapsto> written)\<rparr>) of
        Some e \<Rightarrow> (Some e, d\<lparr>files := (files d)(path \<mapsto> written)\<rparr>)
      | None \<Rightarrow> write_lines os path rest (written @ filepath @ [CHR 0x0A]) d)"

text \<open>
  The method (lines 437-462), with its result and the disk it leaves.
  \<open>sha256_hexdigest\<close> stands for the digest of \<^verbatim>\<open>hashlib\<close> and \<open>os_walk root\<close> for what
  \<^verbatim>\<open>os.walk(root)\<close> yields: the directories below the root, each with the names of its
  files. A file of the disk holds the text that reading it yields.
\<close>

definition cached_list_filepaths ::
  "os_errors \<Rightarrow> (string \<Rightarrow> string) \<Rightarrow> (string \<Rightarrow> (string \<times> string list) list) \<Rightarrow> string
     \<Rightarrow> disk \<Rightarrow> (py_error + string list) \<times> disk" where
  "cached_list_filepaths os sha256_hexdigest os_walk root d =
     (let root_hash = sha256_hexdigest root;
          filepath = ''/cache/'' @ root_hash @ ''/filepaths.txt''
      in if filepath \<in> dom (files d) \<or> filepath \<in> dirs d
         then
           (case open_read_error os filepath d of
              Some e \<Rightarrow> (Inl e, d)
            | None \<Rightarrow>
                (case files d filepath of
                   None \<Rightarrow> (Inl IsADirectoryError, d)
                 | Some text \<Rightarrow>
                     (Inr (map (\<lambda>line. py_replace line [CHR 0x0A] [])
                             (readlines [] (universal_newlines text))), d)))
         else
           (let filepaths =
                  concat (map (\<lambda>(dirpath, filenames). map (os_path_join dirpath) filenames)
                            (os_walk root));
                d1 = d\<lparr>walked := walked d @ [root]\<rparr>
            in case makedirs_error os (py_dirname filepath) d1 of
                 Some e \<Rightarrow> (Inl e, d1)
               | None \<Rightarrow>
                   (let d2 = d1\<lparr>dirs := insert (py_dirname filepath) (dirs d1)\<rparr>
                    in case open_write_error os filepath d2 of
                         Some e \<Rightarrow> (Inl e, d2)
                       | None \<Rightarrow>
                           (case write_lines os filepath filepaths [] d2 of
                              (Some e, d3) \<Rightarrow> (Inl e, d3)
                            | (None, d3) \<Rightarrow> (Inr filepaths, d3)))))"

section \<open>Notions for stating the properties\<close>

text \<open>An element that \<^verbatim>\<open>_collect_paths\<close> takes for a file path: a string starting with the root.\<close>

definition is_path :: "string \<Rightarrow> element \<Rightarrow> bool" where
  "is_path root element = (case element of PyStr s \<Rightarrow> startswith s root | _ \<Rightarrow> False)"

text \<open>The flattened structure of the item contains such an element.\<close>

definition has_path :: "string \<Rightarrow> item \<Rightarrow> bool" where
  "has_path root item = list_ex (is_path root) (fst (tree_flatten item))"

text \<open>The file paths of an item, in the order of its flattened structure.\<close>

definition item_paths :: "string \<Rightarrow> item \<Rightarrow> string list" where
  "item_paths root item = map snd (indexed_paths root (fst (tree_flatten item)))"

text \<open>The item with each of its file paths moved from the root to the cache directory.\<close>

definition rewritten :: "string \<Rightarrow> string \<Rightarrow> item \<Rightarrow> item" where
  "rewritten root cache_dir item =
     unflatten (snd (tree_flatten item))
       (fold (\<lambda>(index, path) fl. fl[index := PyStr (py_replace path root cache_dir)])
          (indexed_paths root (fst (tree_flatten item))) (fst (tree_flatten item)))"

text \<open>The state that an outcome carries.\<close>

fun final :: "'s outcome \<Rightarrow> 's" where
  "final (Returned s) = s"
| "final (Raised e s) = s"
| "final (Blocked s) = s"

text \<open>
  The value that line 134 assigns for an item: the result of \<^verbatim>\<open>prepare_item\<close>, or the
  item itself when the worker has none.
\<close>

definition slot_value :: "'v worker \<Rightarrow> item \<Rightarrow> 'v stored" where
  "slot_value w item =
     (case self_prepare_item w of
        Some prepare_item \<Rightarrow> Prepared (prepare_item item)
      | None \<Rightarrow> Raw item)"

text \<open>
  The indices that the main loop takes from the ready queue before it returns, for a loop
  that awaits \<open>n\<close> sentinels and has counted \<open>is_none\<close> of them.
\<close>

fun consumed :: "int \<Rightarrow> int \<Rightarrow> nat option list \<Rightarrow> nat list" where
  "consumed n is_none [] = []"
| "consumed n is_none (None # ready) =
     (if is_none + 1 = n then [] else consumed n (is_none + 1) ready)"
| "consumed n is_none (Some r # ready) = r # consumed n is_none ready"

text \<open>
  The worker as \<^verbatim>\<open>run\<close> hands it to the main loop when no step before the loop raises:
  with a fresh cache, the cache directory named after the hash of the root, the paths
  of every item recorded, every item rewritten, one queue per downloader filled with its
  work units and a final \<^verbatim>\<open>None\<close>, and the remover started if \<^verbatim>\<open>remove\<close> is set.
\<close>

definition loop_entry :: "(string \<Rightarrow> string) \<Rightarrow> 'v worker \<Rightarrow> 'v worker" where
  "loop_entry sha256_hexdigest w =
     w\<lparr>self_cache := Map.empty, self_cache_done := False,
       self_cache_dir := ''/cache/'' @ sha256_hexdigest (self_root w) @ ''/data'',
       self_paths := map (item_paths (self_root w)) (self_items w),
       self_collected_items := self_collected_items w + length (self_items w),
       self_items :=
         map (rewritten (self_root w) (''/cache/'' @ sha256_hexdigest (self_root w) @ ''/data''))
           (self_items w),
       self_downloaders := self_downloaders w + nat (self_num_downloaders w),
       self_to_download_queues :=
         map (\<lambda>d. map Some (filter (\<lambda>u. int (fst u) mod self_num_downloaders w = int d)
                                (enumerate 0 (map (item_paths (self_root w)) (self_items w))))
                    @ [None])
           [0..<nat (self_num_downloaders w)],
       self_remover := (self_remove w \<or> self_remover w)\<rparr>"

text \<open>
  An operating system for the examples. Its disk is a pair: the paths that are plain
  files and the paths that are directories. A path exists when it is either;
  \<^verbatim>\<open>os.makedirs\<close> raises on a path that is a file and else leaves it a directory;
  \<^verbatim>\<open>open\<close> raises on a directory and else leaves the path a file; \<^verbatim>\<open>os.remove\<close>
  raises on a directory and on a path that does not exist and else deletes the file. The
  client is created, every download succeeds and leaves the disk as it is, and the
  scheme of a URL is what precedes its first colon.
\<close>

definition files_and_dirs_os :: "(string set \<times> string set) os_calls" where
  "files_and_dirs_os =
     \<lparr>boto3_client = None,
      path_exists = (\<lambda>d p. p \<in> fst d \<or> p \<in> snd d),
      urlparse = (\<lambda>url. Inr (takeWhile (\<lambda>c. c \<noteq> CHR '':'') url)),
      makedirs = (\<lambda>p d. if p \<in> fst d then Inl FileExistsError else Inr (fst d, insert p (snd d))),
      open_wb = (\<lambda>p d. if p \<in> snd d then Inl IsADirectoryError else Inr (insert p (fst d), snd d)),
      download_fileobj = (\<lambda>remote_path local_path d. Inr d),
      os_remove =
        (\<lambda>p d. if p \<in> snd d then Inl IsADirectoryError
               else if p \<in> fst d then Inr (fst d - {p}, snd d)
               else Inl FileNotFoundError)\<rparr>"

section \<open>Properties of the partition\<close>

lemma workers_loop_map:
  "workers_loop u n w s ks (bs, ps) =
     (bs @ map (\<lambda>k. k * s) ks,
      ps @ map (\<lambda>k. py_slice u (k * s) (if k = w - 1 then len n else (k + 1) * s)) ks)"
  by (induction ks arbitrary: bs ps) (simp_all add: Let_def)

lemma py_slice_whole: "py_slice xs 0 (len xs) = xs"
  by (simp add: py_slice_def len_def)

lemma py_slice_to_end: "0 \<le> b \<Longrightarrow> py_slice xs b (len xs) = drop (nat b) xs"
  by (auto simp add: py_slice_def len_def Let_def min_def)

lemma py_slice_inner:
  "0 \<le> b \<Longrightarrow> b \<le> e \<Longrightarrow> e \<le> len xs \<Longrightarrow>
     py_slice xs b e = take (nat (e - b)) (drop (nat b) xs)"
  by (auto simp add: py_slice_def len_def Let_def min_def)

lemma block_bound:
  fixes k w n :: int
  assumes "0 \<le> k" "k + 1 \<le> w" "0 \<le> n"
  shows "(k + 1) * (n div w) \<le> n"
proof -
  have w: "0 < w" using assms by linarith
  have d: "0 \<le> n div w" using assms w by (simp add: pos_imp_zdiv_nonneg_iff)
  have "(k + 1) * (n div w) \<le> w * (n div w)"
    using assms d by (intro mult_right_mono) auto
  also have "\<dots> \<le> n"
    using w mult_div_mod_eq[of w n] pos_mod_sign[of w n] by linarith
  finally show ?thesis .
qed

lemma nodes_loop_absent:
  "current_node_rank \<notin> set ranks \<Longrightarrow>
     nodes_loop num_nodes current_node_rank node_size num_workers user_items ranks = Inr None"
  by (induction ranks) auto

lemma set_py_range: "set (py_range n) = {k. 0 \<le> k \<and> k < n}"
proof -
  have "k \<in> int ` {0..<nat n} \<longleftrightarrow> 0 \<le> k \<and> k < n" for k
  proof
    assume "k \<in> int ` {0..<nat n}"
    then show "0 \<le> k \<and> k < n" by auto
  next
    assume "0 \<le> k \<and> k < n"
    then have "nat k \<in> {0..<nat n}" and "k = int (nat k)" by auto
    then show "k \<in> int ` {0..<nat n}" by blast
  qed
  then show ?thesis by (auto simp: py_range_def)
qed

text \<open>
  What the method returns for a rank within range: the worker partitions, in order,
  make up the first items of the whole list, as many as the slice of the node holds. For
  rank 0 this is the slice of the node itself.
\<close>

lemma nodes_loop_present:
  "current_node_rank \<in> set ranks \<Longrightarrow>
     nodes_loop num_nodes current_node_rank node_size num_workers user_items ranks =
       (case py_floordiv (len (node_user_items num_nodes node_size current_node_rank user_items))
               num_workers of
          Inl e \<Rightarrow> Inl e
        | Inr worker_size \<Rightarrow>
            Inr (Some (workers_loop user_items
                         (node_user_items num_nodes node_size current_node_rank user_items)
                         num_workers worker_size (py_range num_workers) ([], []))))"
  by (induction ranks) (auto simp: Let_def)

lemma concat_blocks:
  "concat (map (\<lambda>k. take s (drop (k * s) xs)) [0..<m]) = take (m * s) xs"
proof (induction m)
  case 0
  then show ?case by simp
next
  case (Suc m)
  have "take (Suc m * s) xs = take (m * s) xs @ take s (drop (m * s) xs)"
    using take_add[of "m * s" s xs] by (simp add: add.commute)
  then show ?case using Suc by simp
qed

lemma py_slice_length: "length (py_slice xs b e) \<le> length xs"
proof -
  have "length (take i (drop j xs)) \<le> length xs" for i j by simp
  then show ?thesis unfolding py_slice_def Let_def .
qed

lemma partition_union:
  assumes "1 \<le> num_workers" "0 \<le> node_rank" "node_rank < num_nodes"
  shows "\<exists>begins parts.
           associated_items_to_workers num_nodes node_rank num_workers user_items
             = Inr (Some (begins, parts))
           \<and> concat parts
               = take (length (node_user_items num_nodes (len user_items div num_nodes)
                                 node_rank user_items)) user_items"
proof -
  let ?nui = "node_user_items num_nodes (len user_items div num_nodes) node_rank user_items"
  let ?L = "length ?nui"
  let ?ws = "len ?nui div num_workers"
  let ?n = "nat ?ws"
  let ?m = "nat (num_workers - 1)"
  have L: "?L \<le> length user_items" by (simp add: node_user_items_def Let_def py_slice_length)
  have ws0: "0 \<le> ?ws" using assms(1) by (simp add: len_def pos_imp_zdiv_nonneg_iff)
  have wsn: "?ws = int ?n" using ws0 by simp
  have w: "num_workers = int ?m + 1" using assms(1) by simp
  have mem: "node_rank \<in> set (py_range num_nodes)" using assms by (simp add: set_py_range)
  have res: "associated_items_to_workers num_nodes node_rank num_workers user_items =
      Inr (Some (map (\<lambda>k. k * ?ws) (py_range num_workers),
                 map (\<lambda>k. py_slice user_items (k * ?ws)
                            (if k = num_workers - 1 then len ?nui else (k + 1) * ?ws))
                   (py_range num_workers)))"
  proof -
    have nz: "num_nodes \<noteq> 0" "num_workers \<noteq> 0" using assms by auto
    show ?thesis
      unfolding associated_items_to_workers_def py_floordiv_def
      using nz by (simp add: nodes_loop_present[OF mem] py_floordiv_def workers_loop_map)
  qed
  have total: "int ?m * ?ws \<le> int ?L"
  proof -
    have "int ?m * ?ws \<le> num_workers * ?ws" using ws0 w by (intro mult_right_mono) auto
    also have "\<dots> \<le> len ?nui"
      using assms(1) mult_div_mod_eq[of num_workers "len ?nui"] pos_mod_sign[of num_workers "len ?nui"]
      by linarith
    finally show ?thesis by (simp add: len_def)
  qed
  have inner: "py_slice user_items (int j * ?ws)
                 (if int j = num_workers - 1 then len ?nui else (int j + 1) * ?ws)
               = take ?n (drop (j * ?n) user_items)" if "j < ?m" for j
  proof -
    have ne: "int j \<noteq> num_workers - 1" using that w by simp
    have "(int j + 1) * ?ws \<le> len ?nui"
      using block_bound[of "int j" num_workers "len ?nui"] that w by (simp add: len_def)
    then have up: "(int j + 1) * ?ws \<le> len user_items" using L by (simp add: len_def)
    have lo: "0 \<le> int j * ?ws" "int j * ?ws \<le> (int j + 1) * ?ws"
      using ws0 by (simp_all add: algebra_simps)
    have d: "(int j + 1) * ?ws - int j * ?ws = ?ws" by (simp add: algebra_simps)
    have b: "nat (int j * ?ws) = j * ?n" using ws0 by (simp add: nat_mult_distrib)
    show ?thesis
      using ne py_slice_inner[OF lo up] d b by simp
  qed
  have last_block: "py_slice user_items (int ?m * ?ws)
                 (if int ?m = num_workers - 1 then len ?nui else (int ?m + 1) * ?ws)
               = take (?L - ?m * ?n) (drop (?m * ?n) user_items)"
  proof -
    have e: "int ?m = num_workers - 1" using w by simp
    have lo: "0 \<le> int ?m * ?ws" using ws0 by simp
    have up: "len ?nui \<le> len user_items" using L by (simp add: len_def)
    have t: "int ?m * ?ws \<le> len ?nui" using total by (simp add: len_def)
    have b: "nat (int ?m * ?ws) = ?m * ?n" using ws0 by (simp add: nat_mult_distrib)
    have d: "nat (len ?nui - int ?m * ?ws) = ?L - ?m * ?n"
      using ws0 by (simp add: len_def nat_diff_distrib' nat_mult_distrib)
    show ?thesis
      using py_slice_inner[OF lo t up] e b d by simp
  qed
  have "nat num_workers = Suc ?m" using assms(1) by simp
  then have range: "py_range num_workers = map int [0..<?m] @ [int ?m]"
    unfolding py_range_def by (simp del: of_nat_nat)
  let ?F = "\<lambda>k. py_slice user_items (k * ?ws)
                   (if k = num_workers - 1 then len ?nui else (k + 1) * ?ws)"
  have blocks: "map (\<lambda>j. ?F (int j)) [0..<?m] = map (\<lambda>j. take ?n (drop (j * ?n) user_items)) [0..<?m]"
    by (rule map_cong[OF refl]) (use inner in simp)
  have "concat (map ?F (py_range num_workers))
      = concat (map (\<lambda>j. ?F (int j)) [0..<?m]) @ ?F (int ?m)"
    unfolding range by (simp only: map_append map_map comp_def concat_append list.map concat.simps append_Nil2)
  also have "\<dots> = concat (map (\<lambda>j. take ?n (drop (j * ?n) user_items)) [0..<?m])
          @ take (?L - ?m * ?n) (drop (?m * ?n) user_items)"
    unfolding blocks last_block ..
  also have "\<dots> = take (?m * ?n) user_items @ take (?L - ?m * ?n) (drop (?m * ?n) user_items)"
    by (simp add: concat_blocks)
  also have "\<dots> = take (?m * ?n + (?L - ?m * ?n)) user_items"
    by (simp add: take_add)
  also have "?m * ?n + (?L - ?m * ?n) = ?L"
  proof -
    have "int (?m * ?n) = int ?m * int ?n" by (rule of_nat_mult)
    also have "\<dots> = int ?m * ?ws" by (simp only: wsn[symmetric])
    also have "\<dots> \<le> int ?L" by (rule total)
    finally have "?m * ?n \<le> ?L" by (simp only: of_nat_le_iff)
    then show ?thesis by (rule le_add_diff_inverse)
  qed
  finally show ?thesis using res by simp
qed

lemma py_slice_from_start: "take (length (py_slice xs 0 e)) xs = py_slice xs 0 e"
proof -
  have "take (length (take i xs)) xs = take i xs" for i by (simp add: min_def)
  then show ?thesis unfolding py_slice_def Let_def by simp
qed

lemma partition_covers_first_node:
  assumes "1 \<le> num_workers" "0 < num_nodes"
  shows "\<exists>begins parts.
           associated_items_to_workers num_nodes 0 num_workers user_items
             = Inr (Some (begins, parts))
           \<and> concat parts
               = node_user_items num_nodes (len user_items div num_nodes) 0 user_items"
proof -
  have "take (length (node_user_items num_nodes (len user_items div num_nodes) 0 user_items))
          user_items
        = node_user_items num_nodes (len user_items div num_nodes) 0 user_items"
    unfolding node_user_items_def Let_def by (simp add: py_slice_from_start)
  then show ?thesis
    using partition_union[OF assms(1) order_refl assms(2), of user_items] by simp
qed

text \<open>
  C1. The claim: for \<open>num_workers \<ge> 1\<close>, \<open>NUM_NODES \<ge> 1\<close> and \<open>NODE_RANK < NUM_NODES\<close> the
  concatenation of the worker partitions returned for the current node rank is exactly that
  node's contiguous slice of the item list. The code slices \<^verbatim>\<open>user_items\<close> where the
  bounds are relative to \<^verbatim>\<open>node_user_items\<close>: with two nodes, rank 1, one worker and the
  items \<open>[0, 1, 2, 3]\<close> it returns the partition \<open>[[0, 1]]\<close>, while the slice of node 1 is
  \<open>[2, 3]\<close>.
\<close>

theorem partition_misses_node_slice:
  "associated_items_to_workers 2 1 1 [0, 1, 2, 3 :: int] = Inr (Some ([0], [[0, 1]]))
   \<and> node_user_items 2 2 1 [0, 1, 2, 3 :: int] = [2, 3]
   \<and> concat [[0, 1]] \<noteq> [2, 3 :: int]"
  by (simp add: associated_items_to_workers_def py_floordiv_def py_range_def len_def
      node_user_items_def py_slice_def Let_def upt_conv_Cons)

text \<open>
  C2, as stated: with two workers, one node and the items \<open>[0, 1, 2, 3, 4]\<close> the method
  returns the interleaved partitions \<open>[[0, 2, 4], [1, 3]]\<close>. It returns contiguous blocks
  instead.
\<close>

theorem striding_counterexample:
  "associated_items_to_workers 1 0 2 [0, 1, 2, 3, 4 :: int] = Inr (Some ([0, 2], [[0, 1], [2, 3, 4]]))
   \<and> [[0, 1], [2, 3, 4]] \<noteq> [[0, 2, 4], [1, 3 :: int]]"
  by (simp add: associated_items_to_workers_def py_floordiv_def py_range_def len_def
      node_user_items_def py_slice_def Let_def upt_conv_Cons)

text \<open>
  C2, amended: with one node the method assigns items to workers in contiguous blocks.
  Worker \<open>k\<close> begins at \<open>k * (len user_items div num_workers)\<close>; every worker but the last
  receives the next \<open>len user_items div num_workers\<close> items from there, and the last worker
  receives everything from its begin to the end of the list, the remainder included.
\<close>

theorem partition_contiguous:
  assumes "1 \<le> num_workers"
  shows "associated_items_to_workers 1 0 num_workers user_items =
     Inr (Some (map (\<lambda>k. k * (len user_items div num_workers)) (py_range num_workers),
                map (\<lambda>k. if k = num_workers - 1
                         then drop (nat (k * (len user_items div num_workers))) user_items
                         else take (nat (len user_items div num_workers))
                                (drop (nat (k * (len user_items div num_workers))) user_items))
                    (py_range num_workers)))"
proof -
  let ?ws = "len user_items div num_workers"
  have n0: "0 \<le> len user_items" by (simp add: len_def)
  have ws0: "0 \<le> ?ws" using assms n0 by (simp add: pos_imp_zdiv_nonneg_iff)
  have nui: "node_user_items 1 (len user_items) 0 user_items = user_items"
    by (simp add: node_user_items_def py_slice_whole)
  have slices:
    "py_slice user_items (k * ?ws) (if k = num_workers - 1 then len user_items else (k + 1) * ?ws) =
      (if k = num_workers - 1 then drop (nat (k * ?ws)) user_items
       else take (nat ?ws) (drop (nat (k * ?ws)) user_items))"
    if "k \<in> set (py_range num_workers)" for k
  proof -
    from that have k: "0 \<le> k" "k < num_workers" by (auto simp: set_py_range)
    have b0: "0 \<le> k * ?ws" using k ws0 by simp
    show ?thesis
    proof (cases "k = num_workers - 1")
      case True
      then show ?thesis using b0 by (simp add: py_slice_to_end)
    next
      case False
      then have "k + 1 \<le> num_workers - 1" using k by linarith
      then have "(k + 1) * ?ws \<le> len user_items"
        using block_bound[of k num_workers "len user_items"] k n0 by simp
      moreover have "k * ?ws \<le> (k + 1) * ?ws" using ws0 by (simp add: algebra_simps)
      moreover have "(k + 1) * ?ws - k * ?ws = ?ws" by (simp add: algebra_simps)
      ultimately show ?thesis
        using False b0 py_slice_inner[of "k * ?ws" "(k + 1) * ?ws" user_items] by simp
    qed
  qed
  show ?thesis
    using assms
    by (simp add: associated_items_to_workers_def py_floordiv_def py_range_def[of 1] nui
        workers_loop_map slices cong: map_cong)
qed

theorem partition_contiguous_witness:
  "(1::int) \<le> 2
   \<and> associated_items_to_workers 1 0 2 [0, 1, 2, 3, 4 :: int] = Inr (Some ([0, 2], [[0, 1], [2, 3, 4]]))"
  using partition_contiguous[of 2 "[0, 1, 2, 3, 4 :: int]"]
  by (simp add: len_def py_range_def upt_conv_Cons)

text \<open>
  C10, as stated: whenever \<open>NODE_RANK \<ge> NUM_NODES\<close> the method returns \<^verbatim>\<open>None\<close>. With
  \<open>NUM_NODES = 0\<close> the division of line 418 raises before the loop is reached.
\<close>

theorem rank_out_of_range_counterexample:
  "(0::int) \<le> 0 \<and> associated_items_to_workers 0 0 2 [0, 1, 2 :: int] = Inl ZeroDivisionError"
  by (simp add: associated_items_to_workers_def py_floordiv_def)

text \<open>
  C10, amended: when \<open>NUM_NODES\<close> is not zero and \<open>NODE_RANK \<ge> NUM_NODES\<close>, the method
  returns \<^verbatim>\<open>None\<close> and the unpacking in \<^verbatim>\<open>DataProcessor.run\<close> fails with a
  \<^verbatim>\<open>TypeError\<close>; and whenever the method produces a pair of begins and partitions, the
  node rank lies below the number of nodes (and is not negative).
\<close>

theorem rank_out_of_range:
  "(num_nodes \<noteq> 0 \<and> num_nodes \<le> node_rank \<longrightarrow>
      associated_items_to_workers num_nodes node_rank num_workers user_items = Inr None
      \<and> run_associate num_nodes node_rank num_workers user_items = Inl TypeError)
   \<and> (associated_items_to_workers num_nodes node_rank num_workers user_items = Inr (Some p) \<longrightarrow>
      0 \<le> node_rank \<and> node_rank < num_nodes)"
proof (intro conjI impI)
  assume a: "num_nodes \<noteq> 0 \<and> num_nodes \<le> node_rank"
  then have "node_rank \<notin> set (py_range num_nodes)" by (simp add: set_py_range)
  then show none: "associated_items_to_workers num_nodes node_rank num_workers user_items = Inr None"
    using a by (simp add: associated_items_to_workers_def py_floordiv_def nodes_loop_absent)
  then show "run_associate num_nodes node_rank num_workers user_items = Inl TypeError"
    by (simp add: run_associate_def)
next
  assume s: "associated_items_to_workers num_nodes node_rank num_workers user_items = Inr (Some p)"
  have "node_rank \<in> set (py_range num_nodes)"
  proof (rule ccontr)
    assume "node_rank \<notin> set (py_range num_nodes)"
    then have "associated_items_to_workers num_nodes node_rank num_workers user_items = Inr None
               \<or> associated_items_to_workers num_nodes node_rank num_workers user_items
                   = Inl ZeroDivisionError"
      by (simp add: associated_items_to_workers_def py_floordiv_def nodes_loop_absent)
    with s show False by simp
  qed
  then show "0 \<le> node_rank" and "node_rank < num_nodes" by (simp_all add: set_py_range)
qed

theorem rank_out_of_range_witness:
  "(2::int) \<noteq> 0 \<and> (2::int) \<le> 2
   \<and> associated_items_to_workers 2 2 2 [0, 1, 2, 3, 4 :: int] = Inr None
   \<and> run_associate 2 2 2 [0, 1, 2, 3, 4 :: int] = Inl TypeError
   \<and> associated_items_to_workers 1 0 2 [0, 1, 2, 3, 4 :: int] = Inr (Some ([0, 2], [[0, 1], [2, 3, 4]]))
   \<and> (0::int) < 1"
proof -
  have e: "associated_items_to_workers 1 0 2 [0, 1, 2, 3, 4 :: int]
             = Inr (Some ([0, 2], [[0, 1], [2, 3, 4]]))"
    by (simp add: associated_items_to_workers_def py_floordiv_def py_range_def len_def
        node_user_items_def py_slice_def Let_def upt_conv_Cons)
  show ?thesis
    using rank_out_of_range[of 2 2 2 "[0, 1, 2, 3, 4 :: int]"]
      rank_out_of_range[of 1 0 2 "[0, 1, 2, 3, 4 :: int]" "([0, 2], [[0, 1], [2, 3, 4]])"] e
    by simp
qed

section \<open>Properties of the downloader\<close>




lemma download_paths_outcome:
  "case download_paths scheme root remote_root cache_dir paths st of
     Returned st' \<Rightarrow> queue_out st' = queue_out st
   | Raised e st' \<Rightarrow> e = ValueError \<and> queue_out st' = queue_out st
   | Blocked st' \<Rightarrow> False"
proof (induction paths arbitrary: st)
  case Nil
  then show ?case by simp
next
  case (Cons path rest)
  show ?case
  proof (cases "scheme (py_replace path root remote_root) = ''s3''")
    case True
    let ?st1 = "st\<lparr>fs := insert (py_replace path root cache_dir)
                         (insert (py_dirname (py_replace path root cache_dir)) (fs st)),
                  requests := requests st
                     @ [(py_replace path root remote_root, py_replace path root cache_dir)]\<rparr>"
    have "download_paths scheme root remote_root cache_dir (path # rest) st
        = download_paths scheme root remote_root cache_dir rest ?st1"
      using True by (simp add: Let_def)
    then show ?thesis using Cons.IH[of ?st1]
      by (simp split: outcome.splits)
  next
    case False
    then show ?thesis by (simp add: Let_def)
  qed
qed

lemma downloader_sentinel:
  "case download_data_target scheme root remote_root cache_dir (map Some units @ None # later) st of
     Returned st' \<Rightarrow> queue_out st' = queue_out st @ map (\<lambda>u. Some (fst u)) units @ [None]
   | Raised e st' \<Rightarrow> e = ValueError
       \<and> (\<exists>k<length units. queue_out st' = queue_out st @ map (\<lambda>u. Some (fst u)) (take k units))
   | Blocked st' \<Rightarrow> False"
proof (induction units arbitrary: st)
  case Nil
  then show ?case by simp
next
  case (Cons u units)
  obtain index paths where u: "u = (index, paths)" by (cases u)
  let ?rest = "map Some units @ None # later"
  have cont: "case download_data_target scheme root remote_root cache_dir ?rest
                  (s\<lparr>queue_out := queue_out st @ [Some index]\<rparr>) of
     Returned st' \<Rightarrow> queue_out st' = queue_out st @ map (\<lambda>u. Some (fst u)) (u # units) @ [None]
   | Raised e st' \<Rightarrow> e = ValueError
       \<and> (\<exists>k<length (u # units). queue_out st' = queue_out st @ map (\<lambda>u. Some (fst u)) (take k (u # units)))
   | Blocked st' \<Rightarrow> False" for s :: "'a downloader"
  proof (cases "download_data_target scheme root remote_root cache_dir ?rest
                  (s\<lparr>queue_out := queue_out st @ [Some index]\<rparr>)")
    case (Returned st')
    then show ?thesis using Cons.IH[of "s\<lparr>queue_out := queue_out st @ [Some index]\<rparr>"] u by simp
  next
    case (Raised e st')
    then obtain k where k: "e = ValueError" "k < length units"
      "queue_out st' = (queue_out st @ [Some index]) @ map (\<lambda>u. Some (fst u)) (take k units)"
      using Cons.IH[of "s\<lparr>queue_out := queue_out st @ [Some index]\<rparr>"] by auto
    then have "Suc k < length (u # units)
      \<and> queue_out st' = queue_out st @ map (\<lambda>u. Some (fst u)) (take (Suc k) (u # units))"
      using u by simp
    then show ?thesis using Raised k(1) by auto
  next
    case (Blocked st')
    then show ?thesis using Cons.IH[of "s\<lparr>queue_out := queue_out st @ [Some index]\<rparr>"] by simp
  qed
  show ?case
  proof (cases "list_all (\<lambda>p. py_replace p root cache_dir \<in> fs st) paths")
    case True
    then have "download_data_target scheme root remote_root cache_dir (map Some (u # units) @ None # later) st
      = download_data_target scheme root remote_root cache_dir ?rest (st\<lparr>queue_out := queue_out st @ [Some index]\<rparr>)"
      using u by simp
    then show ?thesis using cont[of st] by simp
  next
    case False
    show ?thesis
    proof (cases "download_paths scheme root remote_root cache_dir paths st")
      case (Returned st1)
      then have q: "queue_out st1 = queue_out st"
        using download_paths_outcome[where scheme=scheme and root=root and remote_root=remote_root and cache_dir=cache_dir and paths=paths and st=st] by simp
      have "download_data_target scheme root remote_root cache_dir (map Some (u # units) @ None # later) st
        = download_data_target scheme root remote_root cache_dir ?rest (st1\<lparr>queue_out := queue_out st @ [Some index]\<rparr>)"
        using u False Returned q by simp
      then show ?thesis using cont[of st1] by simp
    next
      case (Raised e st1)
      then have q: "e = ValueError" "queue_out st1 = queue_out st"
        using download_paths_outcome[where scheme=scheme and root=root and remote_root=remote_root and cache_dir=cache_dir and paths=paths and st=st] by simp_all
      have "download_data_target scheme root remote_root cache_dir (map Some (u # units) @ None # later) st
        = Raised e st1"
        using u False Raised by simp
      moreover have "0 < length (u # units) \<and> queue_out st1 = queue_out st @ map (\<lambda>u. Some (fst u)) (take 0 (u # units))"
        using q by simp
      ultimately show ?thesis using q(1) by (auto simp del: take_Suc_Cons list.size)
    next
      case (Blocked st1)
      then show ?thesis
        using download_paths_outcome[where scheme=scheme and root=root and remote_root=remote_root and cache_dir=cache_dir and paths=paths and st=st] by simp
    qed
  qed
qed

text \<open>
  C7. When the cache location of every path of a work unit (the path with the root
  replaced by the cache directory) exists, the downloader goes on to the next message
  with the index put on the ready queue and nothing else changed: no download is
  requested and no file is written.
\<close>

theorem ready_without_download:
  assumes "\<forall>p\<in>set paths. py_replace p root cache_dir \<in> fs st"
  shows "download_data_target scheme root remote_root cache_dir (Some (index, paths) # queue_in) st =
         download_data_target scheme root remote_root cache_dir queue_in
           (st\<lparr>queue_out := queue_out st @ [Some index]\<rparr>)"
  using assms by (simp add: list_all_iff)

theorem ready_without_download_witness:
  "py_replace ''/r/a'' ''/r'' ''/c'' \<in> fs \<lparr>fs = {''/c/a''}, requests = [], queue_out = ([] :: nat option list)\<rparr>
   \<and> download_data_target (\<lambda>u. take 2 u) ''/r'' ''s3://b'' ''/c'' [Some (0::nat, [''/r/a'']), None]
        \<lparr>fs = {''/c/a''}, requests = [], queue_out = []\<rparr>
      = Returned \<lparr>fs = {''/c/a''}, requests = [], queue_out = [Some 0, None]\<rparr>"
proof -
  have h: "\<forall>p\<in>set [''/r/a'']. py_replace p ''/r'' ''/c'' \<in> fs \<lparr>fs = {''/c/a''}, requests = [], queue_out = ([] :: nat option list)\<rparr>"
    by (simp add: py_replace_def startswith_def)
  show ?thesis
    using h ready_without_download[OF h, of "\<lambda>u. take 2 u" "''s3://b''" 0 "[None]"]
    by simp
qed




section \<open>Properties of path collection\<close>

lemma tree_leaves_length: "length (tree_leaves t) = num_leaves (tree_spec t)"
proof (induction t)
  case (Leaf e)
  then show ?case by simp
next
  case (Node c ts)
  have "(\<Sum>x\<leftarrow>ts. length (tree_leaves x)) = (\<Sum>x\<leftarrow>ts. num_leaves (tree_spec x))"
    using Node by (induction ts) auto
  then show ?case by (simp add: length_concat comp_def)
qed

lemma fold_update_length:
  "length (fold (\<lambda>(index, path) fl. fl[index := f path]) ixs fl) = length fl"
  by (induction ixs arbitrary: fl) (auto split: prod.splits)

lemma path_entry_empty: "path_entry root (index, e) = [] \<longleftrightarrow> \<not> is_path root e"
  by (cases e) (simp_all add: path_entry_def is_path_def)

lemma path_entries_empty:
  "(\<forall>x\<in>set (enumerate n fl). path_entry root x = []) \<longleftrightarrow> (\<forall>e\<in>set fl. \<not> is_path root e)"
  by (induction fl arbitrary: n) (simp_all add: path_entry_empty)

lemma indexed_paths_empty: "indexed_paths root fl = [] \<longleftrightarrow> \<not> list_ex (is_path root) fl"
  using path_entries_empty[of 0 fl root] by (simp add: indexed_paths_def list_ex_iff)

lemma unflatten_rewritten:
  "tree_unflatten
     (fold (\<lambda>(index, path) fl. fl[index := PyStr (py_replace path root cache_dir)])
        (indexed_paths root (fst (tree_flatten item))) (fst (tree_flatten item)))
     (snd (tree_flatten item)) = Inr (rewritten root cache_dir item)"
  by (simp add: tree_unflatten_def rewritten_def fold_update_length tree_flatten_def tree_leaves_length)

lemma collect_loop_raises:
  "\<exists>item\<in>set rest. \<not> has_path (self_root w) item \<Longrightarrow>
     \<exists>w'. collect_loop w rest acc = Raised ValueError w'
         \<and> self_cache w' = self_cache w \<and> self_effects w' = self_effects w
         \<and> self_cache_done w' = self_cache_done w \<and> self_remove_queue w' = self_remove_queue w"
proof (induction rest arbitrary: w acc)
  case Nil
  then show ?case by simp
next
  case (Cons item rest)
  show ?case
  proof (cases "has_path (self_root w) item")
    case False
    then have "indexed_paths (self_root w) (fst (tree_flatten item)) = []"
      by (simp add: has_path_def indexed_paths_empty)
    then show ?thesis by (simp add: Let_def case_prod_beta)
  next
    case True
    then have ne: "indexed_paths (self_root w) (fst (tree_flatten item)) \<noteq> []"
      by (simp add: has_path_def indexed_paths_empty)
    let ?w = "w\<lparr>self_paths := self_paths w @ [item_paths (self_root w) item],
                 self_collected_items := self_collected_items w + 1\<rparr>"
    from True Cons.prems have "\<exists>item\<in>set rest. \<not> has_path (self_root ?w) item" by auto
    from Cons.IH[OF this, of "acc @ [rewritten (self_root w) (self_cache_dir w) item]"]
    show ?thesis
      using ne unflatten_rewritten[of "self_root w" "self_cache_dir w" item]
      by (simp add: Let_def item_paths_def case_prod_beta)
  qed
qed

lemma collect_loop_returns:
  "\<forall>item\<in>set rest. has_path (self_root w) item \<Longrightarrow>
     collect_loop w rest acc =
       Returned (w\<lparr>self_paths := self_paths w @ map (item_paths (self_root w)) rest,
                   self_collected_items := self_collected_items w + length rest,
                   self_items := acc @ map (rewritten (self_root w) (self_cache_dir w)) rest\<rparr>)"
proof (induction rest arbitrary: w acc)
  case Nil
  then show ?case by simp
next
  case (Cons item rest)
  then have ne: "indexed_paths (self_root w) (fst (tree_flatten item)) \<noteq> []"
    by (simp add: has_path_def indexed_paths_empty)
  let ?w = "w\<lparr>self_paths := self_paths w @ [item_paths (self_root w) item],
               self_collected_items := self_collected_items w + 1\<rparr>"
  from Cons.prems have "\<forall>item\<in>set rest. has_path (self_root ?w) item" by auto
  from Cons.IH[OF this, of "acc @ [rewritten (self_root w) (self_cache_dir w) item]"]
  show ?case
    using ne unflatten_rewritten[of "self_root w" "self_cache_dir w" item]
    by (simp add: Let_def item_paths_def case_prod_beta)
qed

text \<open>
  C4. When some item of the worker has no string element starting with the root in its
  flattened structure, \<^verbatim>\<open>_collect_paths\<close> raises a \<^verbatim>\<open>ValueError\<close>, and so does
  \<^verbatim>\<open>run\<close>, with an empty cache and no effect of the main loop: no slot is written.
  When every item has such an element, \<^verbatim>\<open>_collect_paths\<close> returns.
\<close>

theorem item_without_path_aborts:
  "((\<exists>item\<in>set (self_items w). \<not> has_path (self_root w) item) \<longrightarrow>
      (\<exists>w'. collect_paths w = Raised ValueError w')
      \<and> (\<exists>w'. run sha256_hexdigest w ready = Raised ValueError w'
              \<and> self_cache w' = Map.empty \<and> self_effects w' = self_effects w))
   \<and> ((\<forall>item\<in>set (self_items w). has_path (self_root w) item) \<longrightarrow>
      (\<exists>w'. collect_paths w = Returned w'))"
proof (intro conjI impI)
  assume a: "\<exists>item\<in>set (self_items w). \<not> has_path (self_root w) item"
  from collect_loop_raises[OF a, of "[]"]
  show "\<exists>w'. collect_paths w = Raised ValueError w'"
    by (auto simp: collect_paths_def)
  let ?w = "create_cache sha256_hexdigest w"
  have c: "self_items ?w = self_items w" "self_root ?w = self_root w"
    "self_cache ?w = Map.empty" "self_effects ?w = self_effects w"
    by (simp_all add: create_cache_def Let_def)
  from a have "\<exists>item\<in>set (self_items ?w). \<not> has_path (self_root ?w) item"
    unfolding c .
  from collect_loop_raises[OF this, of "[]"] obtain w' where
    "collect_paths ?w = Raised ValueError w'" "self_cache w' = self_cache ?w"
    "self_effects w' = self_effects ?w"
    by (auto simp: collect_paths_def)
  then show "\<exists>w'. run sha256_hexdigest w ready = Raised ValueError w'
              \<and> self_cache w' = Map.empty \<and> self_effects w' = self_effects w"
    unfolding c by (simp add: run_def)
next
  assume "\<forall>item\<in>set (self_items w). has_path (self_root w) item"
  from collect_loop_returns[OF this, of "[]"]
  show "\<exists>w'. collect_paths w = Returned w'"
    by (simp add: collect_paths_def)
qed

theorem item_without_path_aborts_witness:
  "\<not> has_path ''/r'' (Leaf (PyInt 3))
   \<and> (\<exists>w'. run (\<lambda>root. ''0a'')
              (base_worker 0 0 0 (None :: (item \<Rightarrow> nat) option) ''/r'' ''s3://b''
                 [Leaf (PyStr ''/r/a''), Leaf (PyInt 3)] None 1 True) [Some 0, Some 1, None]
            = Raised ValueError w' \<and> self_cache w' = Map.empty \<and> self_effects w' = [])
   \<and> has_path ''/r'' (Leaf (PyStr ''/r/a''))
   \<and> has_path ''/r'' (Node ListC [Leaf (PyInt 3), Leaf (PyStr ''/r/b'')])
   \<and> (\<exists>w'. collect_paths (base_worker 0 0 0 (None :: (item \<Rightarrow> nat) option) ''/r'' ''s3://b''
                           [Leaf (PyStr ''/r/a''), Node ListC [Leaf (PyInt 3), Leaf (PyStr ''/r/b'')]]
                           None 1 True)
            = Returned w')"
proof -
  let ?wa = "base_worker 0 0 0 (None :: (item \<Rightarrow> nat) option) ''/r'' ''s3://b''
               [Leaf (PyStr ''/r/a''), Leaf (PyInt 3)] None 1 True"
  let ?wb = "base_worker 0 0 0 (None :: (item \<Rightarrow> nat) option) ''/r'' ''s3://b''
               [Leaf (PyStr ''/r/a''), Node ListC [Leaf (PyInt 3), Leaf (PyStr ''/r/b'')]] None 1 True"
  have ra: "self_root ?wa = ''/r''" "self_effects ?wa = []" and rb: "self_root ?wb = ''/r''"
    by (simp_all add: base_worker_def)
  have a: "\<exists>item\<in>set (self_items ?wa). \<not> has_path (self_root ?wa) item"
    by (simp add: base_worker_def has_path_def tree_flatten_def is_path_def)
  have b: "\<forall>item\<in>set (self_items ?wb). has_path (self_root ?wb) item"
    by (simp add: base_worker_def has_path_def tree_flatten_def is_path_def startswith_def)
  have p: "\<not> has_path ''/r'' (Leaf (PyInt 3))" "has_path ''/r'' (Leaf (PyStr ''/r/a''))"
    "has_path ''/r'' (Node ListC [Leaf (PyInt 3), Leaf (PyStr ''/r/b'')])"
    by (simp_all add: has_path_def tree_flatten_def is_path_def startswith_def)
  show ?thesis
    using a b p item_without_path_aborts[of ?wa "\<lambda>root. ''0a''" "[Some 0, Some 1, None]"]
      item_without_path_aborts[of ?wb]
    unfolding ra rb by blast
qed

section \<open>Properties of the main loop\<close>

lemma process_index_returns:
  assumes "r < length (self_items w)" "self_remove w \<longrightarrow> r < length (self_paths w)"
  shows "\<exists>w'. process_index w r = Returned w'
     \<and> self_cache w' = (self_cache w)(int r + self_start_index w \<mapsto> slot_value w (self_items w ! r))
     \<and> self_effects w' = self_effects w @ CacheWrite (int r + self_start_index w)
          # (if self_remove w then [RemovePut (Some (self_paths w ! r))] else [])
     \<and> self_remove_queue w' = self_remove_queue w
          @ (if self_remove w then [Some (self_paths w ! r)] else [])
     \<and> self_items w' = self_items w \<and> self_paths w' = self_paths w
     \<and> self_num_downloaders w' = self_num_downloaders w \<and> self_remove w' = self_remove w
     \<and> self_start_index w' = self_start_index w \<and> self_prepare_item w' = self_prepare_item w
     \<and> self_cache_done w' = self_cache_done w"
  using assms
  by (cases "self_worker_queue w")
    (auto simp add: process_index_def py_index_def slot_value_def Let_def)

lemma process_index_frame:
  "self_num_downloaders (final (process_index w r)) = self_num_downloaders w
   \<and> self_cache_done (final (process_index w r)) = self_cache_done w
   \<and> count_list (self_remove_queue (final (process_index w r))) None
        = count_list (self_remove_queue w) None
   \<and> count_list (self_effects (final (process_index w r))) CacheDone
        = count_list (self_effects w) CacheDone"
  by (cases "self_worker_queue w")
    (auto simp add: process_index_def py_index_def Let_def)

lemma slot_value_cong:
  "self_prepare_item w' = self_prepare_item w \<Longrightarrow> slot_value w' = slot_value w"
  by (simp add: slot_value_def fun_eq_iff)

lemma run_loop_cache:
  "\<forall>r\<in>set (consumed (self_num_downloaders w) is_none ready).
      r < length (self_items w) \<and> (self_remove w \<longrightarrow> r < length (self_paths w)) \<Longrightarrow>
   self_cache (final (run_loop w is_none ready)) =
     (\<lambda>slot. if \<exists>r\<in>set (consumed (self_num_downloaders w) is_none ready).
                   slot = int r + self_start_index w
             then Some (slot_value w (self_items w ! nat (slot - self_start_index w)))
             else self_cache w slot)"
proof (induction ready arbitrary: w is_none)
  case Nil
  then show ?case by simp
next
  case (Cons m ready)
  show ?case
  proof (cases m)
    case None
    show ?thesis
    proof (cases "is_none + 1 = self_num_downloaders w")
      case True
      then show ?thesis using None by simp
    next
      case False
      then show ?thesis using None Cons.IH[of w "is_none + 1"] Cons.prems by simp
    qed
  next
    case (Some r)
    let ?slot = "int r + self_start_index w"
    let ?v = "slot_value w (self_items w ! r)"
    from Cons.prems Some have r: "r < length (self_items w)" "self_remove w \<longrightarrow> r < length (self_paths w)"
      by simp_all
    from process_index_returns[OF r] obtain w' where
      w': "process_index w r = Returned w'" and
      same: "self_num_downloaders w' = self_num_downloaders w" "self_items w' = self_items w"
        "self_paths w' = self_paths w" "self_remove w' = self_remove w"
        "self_start_index w' = self_start_index w"
        "self_cache w' = (self_cache w)(?slot \<mapsto> ?v)" and
      prep: "self_prepare_item w' = self_prepare_item w"
      by blast
    have step: "run_loop w is_none (m # ready) = run_loop w' is_none ready"
      using Some w' by simp
    have prems': "\<forall>r\<in>set (consumed (self_num_downloaders w') is_none ready).
      r < length (self_items w') \<and> (self_remove w' \<longrightarrow> r < length (self_paths w'))"
      using Cons.prems Some unfolding same by simp
    have "self_cache (final (run_loop w' is_none ready)) =
       (\<lambda>slot. if \<exists>r\<in>set (consumed (self_num_downloaders w) is_none ready).
                   slot = int r + self_start_index w
             then Some (slot_value w (self_items w ! nat (slot - self_start_index w)))
             else ((self_cache w)(?slot \<mapsto> ?v)) slot)"
      using Cons.IH[OF prems'] unfolding same slot_value_cong[OF prep] .
    then show ?thesis
      unfolding step using Some by (auto simp: fun_eq_iff)
  qed
qed

lemma run_loop_returned:
  "run_loop w k ready = Returned w' \<Longrightarrow>
     \<exists>pre post. ready = pre @ None # post
        \<and> k + int (count_list pre None) + 1 = self_num_downloaders w
        \<and> self_cache_done w'
        \<and> self_remove_queue w' = self_remove_queue (final (run_loop w k pre)) @ [None]
        \<and> self_effects w' = self_effects (final (run_loop w k pre)) @ [RemovePut None, CacheDone]"
proof (induction ready arbitrary: w k)
  case Nil
  then show ?case by simp
next
  case (Cons m ready)
  show ?case
  proof (cases m)
    case None
    show ?thesis
    proof (cases "k + 1 = self_num_downloaders w")
      case True
      then have "m # ready = [] @ None # ready
        \<and> k + int (count_list [] (None :: nat option)) + 1 = self_num_downloaders w
        \<and> self_cache_done w'
        \<and> self_remove_queue w' = self_remove_queue (final (run_loop w k [])) @ [None]
        \<and> self_effects w' = self_effects (final (run_loop w k [])) @ [RemovePut None, CacheDone]"
        using Cons.prems None by auto
      then show ?thesis by blast
    next
      case False
      then have "run_loop w (k + 1) ready = Returned w'" using Cons.prems None by simp
      from Cons.IH[OF this] obtain pre post where
        p: "ready = pre @ None # post"
          "k + 1 + int (count_list pre None) + 1 = self_num_downloaders w"
          "self_cache_done w'"
          "self_remove_queue w' = self_remove_queue (final (run_loop w (k + 1) pre)) @ [None]"
          "self_effects w' = self_effects (final (run_loop w (k + 1) pre)) @ [RemovePut None, CacheDone]"
        by blast
      have "m # ready = (None # pre) @ None # post
        \<and> k + int (count_list (None # pre) None) + 1 = self_num_downloaders w
        \<and> self_cache_done w'
        \<and> self_remove_queue w' = self_remove_queue (final (run_loop w k (None # pre))) @ [None]
        \<and> self_effects w' = self_effects (final (run_loop w k (None # pre))) @ [RemovePut None, CacheDone]"
        using p None False by simp
      then show ?thesis by blast
    qed
  next
    case (Some r)
    show ?thesis
    proof (cases "process_index w r")
      case (Returned w1)
      have n: "self_num_downloaders w1 = self_num_downloaders w"
        using process_index_frame[of w r] Returned by simp
      have "run_loop w1 k ready = Returned w'" using Cons.prems Some Returned by simp
      from Cons.IH[OF this] obtain pre post where
        p: "ready = pre @ None # post"
          "k + int (count_list pre None) + 1 = self_num_downloaders w1"
          "self_cache_done w'"
          "self_remove_queue w' = self_remove_queue (final (run_loop w1 k pre)) @ [None]"
          "self_effects w' = self_effects (final (run_loop w1 k pre)) @ [RemovePut None, CacheDone]"
        by blast
      have "m # ready = (Some r # pre) @ None # post
        \<and> k + int (count_list (Some r # pre) None) + 1 = self_num_downloaders w
        \<and> self_cache_done w'
        \<and> self_remove_queue w' = self_remove_queue (final (run_loop w k (Some r # pre))) @ [None]
        \<and> self_effects w' = self_effects (final (run_loop w k (Some r # pre))) @ [RemovePut None, CacheDone]"
        using p Some Returned n by simp
      then show ?thesis by blast
    next
      case (Raised e w1)
      then show ?thesis using Cons.prems Some by simp
    next
      case (Blocked w1)
      then show ?thesis using Cons.prems Some by simp
    qed
  qed
qed

lemma run_loop_waiting:
  "(\<exists>w'. run_loop w k ready = Returned w')
   \<or> (self_cache_done (final (run_loop w k ready)) = self_cache_done w
      \<and> count_list (self_remove_queue (final (run_loop w k ready))) None
           = count_list (self_remove_queue w) None
      \<and> count_list (self_effects (final (run_loop w k ready))) CacheDone
           = count_list (self_effects w) CacheDone)"
proof (induction ready arbitrary: w k)
  case Nil
  then show ?case by simp
next
  case (Cons m ready)
  show ?case
  proof (cases m)
    case None
    then show ?thesis using Cons.IH[of w "k + 1"] by auto
  next
    case (Some r)
    show ?thesis
    proof (cases "process_index w r")
      case (Returned w1)
      then show ?thesis
        using Some Cons.IH[of w1 k] process_index_frame[of w r] by auto
    next
      case (Raised e w1)
      then show ?thesis using Some process_index_frame[of w r] by simp
    next
      case (Blocked w1)
      then show ?thesis using Some process_index_frame[of w r] by simp
    qed
  qed
qed

lemma run_loop_returns:
  "\<forall>r\<in>set (consumed (self_num_downloaders w) k (pre @ None # post)).
      r < length (self_items w) \<and> (self_remove w \<longrightarrow> r < length (self_paths w)) \<Longrightarrow>
   k + int (count_list pre None) + 1 = self_num_downloaders w \<Longrightarrow>
   \<exists>w'. run_loop w k (pre @ None # post) = Returned w'"
proof (induction pre arbitrary: w k)
  case Nil
  then show ?case by simp
next
  case (Cons m pre)
  show ?case
  proof (cases m)
    case None
    then have ne: "k + 1 \<noteq> self_num_downloaders w" using Cons.prems(2) by simp
    have "\<exists>w'. run_loop w (k + 1) (pre @ None # post) = Returned w'"
      using Cons.IH[of w "k + 1"] Cons.prems None ne by simp
    then show ?thesis using None ne by simp
  next
    case (Some r)
    from Cons.prems(1) Some have r: "r < length (self_items w)"
      "self_remove w \<longrightarrow> r < length (self_paths w)" by simp_all
    from process_index_returns[OF r] obtain w1 where
      w1: "process_index w r = Returned w1" and
      same: "self_num_downloaders w1 = self_num_downloaders w" "self_items w1 = self_items w"
        "self_paths w1 = self_paths w" "self_remove w1 = self_remove w"
      by blast
    have "\<exists>w'. run_loop w1 k (pre @ None # post) = Returned w'"
      using Cons.IH[of w1 k] Cons.prems Some unfolding same by simp
    then show ?thesis using Some w1 by simp
  qed
qed

section \<open>Properties of the downloader queues\<close>

lemma py_position_in_range:
  "0 \<le> i \<Longrightarrow> i < int (length xs) \<Longrightarrow> py_position xs i = Some (nat i)"
  by (simp add: py_position_def len_def)

lemma put_units_closed:
  assumes "0 < n" "length queues = nat n"
  shows "put_units n units queues =
     Returned (map (\<lambda>d. queues ! d @ map Some (filter (\<lambda>u. int (fst u) mod n = int d) units))
                 [0..<nat n])"
  using assms(2)
proof (induction units arbitrary: queues)
  case Nil
  then show ?case using map_nth[of queues] by simp
next
  case (Cons u units)
  obtain index paths where u: "u = (index, paths)" by (cases u)
  let ?j = "nat (int index mod n)"
  let ?qs = "queues[?j := queues ! ?j @ [Some (index, paths)]]"
  have j: "0 \<le> int index mod n" "int index mod n < int (length queues)"
    using assms(1) Cons.prems by (simp_all)
  have len: "length ?qs = nat n" using Cons.prems by simp
  have "put_units n (u # units) queues = put_units n units ?qs"
    using assms(1) u py_position_in_range[OF j] by simp
  also have "\<dots> = Returned (map (\<lambda>d. ?qs ! d @ map Some (filter (\<lambda>u. int (fst u) mod n = int d) units))
                 [0..<nat n])"
    by (rule Cons.IH[OF len])
  also have "map (\<lambda>d. ?qs ! d @ map Some (filter (\<lambda>u. int (fst u) mod n = int d) units)) [0..<nat n]
     = map (\<lambda>d. queues ! d @ map Some (filter (\<lambda>u. int (fst u) mod n = int d) (u # units))) [0..<nat n]"
  proof (rule map_cong[OF refl])
    fix d assume "d \<in> set [0..<nat n]"
    then have d: "d < length queues" using Cons.prems by simp
    show "?qs ! d @ map Some (filter (\<lambda>u. int (fst u) mod n = int d) units)
        = queues ! d @ map Some (filter (\<lambda>u. int (fst u) mod n = int d) (u # units))"
    proof (cases "d = ?j")
      case True
      then have "int index mod n = int d" using j by simp
      then show ?thesis using True d u by simp
    next
      case False
      then have "int index mod n \<noteq> int d" by auto
      then show ?thesis using False d u by simp
    qed
  qed
  finally show ?case .
qed

lemma put_sentinels_fold:
  "\<forall>d\<in>set ds. d < length queues \<Longrightarrow>
     put_sentinels (map int ds) queues =
       Returned (fold (\<lambda>d qs. qs[d := qs ! d @ [None]]) ds queues)"
proof (induction ds arbitrary: queues)
  case Nil
  then show ?case by simp
next
  case (Cons d ds)
  then show ?case by (simp add: py_position_in_range)
qed

lemma fold_sentinels_upt:
  "n \<le> length queues \<Longrightarrow>
     fold (\<lambda>d qs. qs[d := qs ! d @ [x]]) [0..<n] queues
       = map (\<lambda>q. q @ [x]) (take n queues) @ drop n queues"
proof (induction n)
  case 0
  then show ?case by simp
next
  case (Suc n)
  then have n: "n < length queues" by simp
  have "fold (\<lambda>d qs. qs[d := qs ! d @ [x]]) [0..<Suc n] queues
      = (map (\<lambda>q. q @ [x]) (take n queues) @ drop n queues)
          [n := (map (\<lambda>q. q @ [x]) (take n queues) @ drop n queues) ! n @ [x]]"
    using Suc by simp
  also have "\<dots> = map (\<lambda>q. q @ [x]) (take (Suc n) queues) @ drop (Suc n) queues"
    using n by (simp add: list_update_append nth_append take_Suc_conv_app_nth
        Cons_nth_drop_Suc[symmetric])
  finally show ?case .
qed

lemma start_downloaders_closed:
  assumes "0 < self_num_downloaders w" "self_to_download_queues w = []"
  shows "start_downloaders w =
     Returned (w\<lparr>self_downloaders := self_downloaders w + nat (self_num_downloaders w),
                 self_to_download_queues :=
                   map (\<lambda>d. map Some (filter (\<lambda>u. int (fst u) mod self_num_downloaders w = int d)
                                          (enumerate 0 (self_paths w))) @ [None])
                     [0..<nat (self_num_downloaders w)]\<rparr>)"
proof -
  let ?n = "self_num_downloaders w"
  let ?qs0 = "map (\<lambda>_. []) (py_range ?n) :: (nat \<times> string list) option list list"
  let ?qs1 = "map (\<lambda>d. map Some (filter (\<lambda>u. int (fst u) mod ?n = int d) (enumerate 0 (self_paths w))))
                [0..<nat ?n]"
  have len0: "length ?qs0 = nat ?n" by (simp add: py_range_def)
  have u: "put_units ?n (enumerate 0 (self_paths w)) ?qs0 = Returned ?qs1"
    using put_units_closed[OF assms(1) len0, of "enumerate 0 (self_paths w)"]
    by (simp add: py_range_def cong: map_cong)
  have s: "put_sentinels (py_range ?n) ?qs1 = Returned (map (\<lambda>q. q @ [None]) ?qs1)"
    using put_sentinels_fold[of "[0..<nat ?n]" ?qs1]
      fold_sentinels_upt[of "nat ?n" ?qs1 None]
    by (simp add: py_range_def)
  show ?thesis
    using assms(2) u s by (simp add: start_downloaders_def Let_def py_range_def comp_def)
qed

lemma count_list_Some_None: "count_list (map (\<lambda>u. Some (f u)) xs) None = 0"
  by (induction xs) simp_all


section \<open>Properties of the cached file listing\<close>

lemma universal_newlines_id: "CHR 0x0D \<notin> set s \<Longrightarrow> universal_newlines s = s"
  by (induction s rule: universal_newlines.induct) auto

lemma readlines_line:
  "CHR 0x0A \<notin> set p \<Longrightarrow>
     readlines line (p @ CHR 0x0A # rest) = (line @ p @ [CHR 0x0A]) # readlines [] rest"
  by (induction p arbitrary: line) auto

lemma readlines_written:
  "\<forall>p\<in>set ps. CHR 0x0A \<notin> set p \<Longrightarrow>
     readlines [] (concat (map (\<lambda>p. p @ [CHR 0x0A]) ps)) = map (\<lambda>p. p @ [CHR 0x0A]) ps"
proof (induction ps)
  case Nil
  then show ?case by simp
next
  case (Cons p ps)
  then have "readlines [] (p @ CHR 0x0A # concat (map (\<lambda>p. p @ [CHR 0x0A]) ps))
      = (p @ [CHR 0x0A]) # map (\<lambda>p. p @ [CHR 0x0A]) ps"
    using readlines_line[of p "[]"] by simp
  then show ?case by simp
qed

lemma strip_line_feed:
  "CHR 0x0A \<notin> set p \<Longrightarrow> py_replace (p @ [CHR 0x0A]) [CHR 0x0A] [] = p"
proof -
  assume "CHR 0x0A \<notin> set p"
  then have "replace_from [CHR 0x0A] [] (p @ [CHR 0x0A]) = p"
    by (induction p) (auto simp: startswith_def)
  then show ?thesis by (simp add: py_replace_def)
qed

lemma read_back:
  assumes "\<forall>p\<in>set ps. CHR 0x0A \<notin> set p \<and> CHR 0x0D \<notin> set p"
  shows "map (\<lambda>line. py_replace line [CHR 0x0A] [])
           (readlines [] (universal_newlines (concat (map (\<lambda>p. p @ [CHR 0x0A]) ps)))) = ps"
proof -
  have "CHR 0x0D \<notin> set (concat (map (\<lambda>p. p @ [CHR 0x0A]) ps))"
    using assms by auto
  then have "universal_newlines (concat (map (\<lambda>p. p @ [CHR 0x0A]) ps))
       = concat (map (\<lambda>p. p @ [CHR 0x0A]) ps)"
    by (rule universal_newlines_id)
  moreover have "readlines [] (concat (map (\<lambda>p. p @ [CHR 0x0A]) ps)) = map (\<lambda>p. p @ [CHR 0x0A]) ps"
    using assms by (intro readlines_written) simp
  moreover have "map (\<lambda>line. py_replace line [CHR 0x0A] []) (map (\<lambda>p. p @ [CHR 0x0A]) ps) = ps"
    using assms by (induction ps) (simp_all add: strip_line_feed)
  ultimately show ?thesis by simp
qed


lemma write_lines_returns:
  "fst (write_lines os path lines written d) = None \<Longrightarrow>
     snd (write_lines os path lines written d)
       = d\<lparr>files := (files d)(path \<mapsto> written @ concat (map (\<lambda>l. l @ [CHR 0x0A]) lines))\<rparr>"
proof (induction lines arbitrary: written)
  case Nil
  have "written @ concat (map (\<lambda>l. l @ [CHR 0x0A]) []) = written" by simp
  then show ?case by (simp only: write_lines.simps snd_conv)
next
  case (Cons l lines)
  show ?case
  proof (cases "write_error os (l @ [CHR 0x0A]) (d\<lparr>files := (files d)(path \<mapsto> written)\<rparr>)")
    case None
    then show ?thesis using Cons.prems Cons.IH[of "written @ l @ [CHR 0x0A]"] by simp
  next
    case (Some e)
    then show ?thesis using Cons.prems by simp
  qed
qed


text \<open>
  C8, as stated: the first call walks the file system and writes the listing, and a
  later call returns the list of the first call provided no path contains a newline.
  Take a directory \<open>/r\<close> with the three files \<open>a\<close>, one whose name is the byte
  \<open>0xFF\<close>, and \<open>c\<close>, and a default encoding that cannot encode that name. No path
  contains a line feed or a carriage return. The first call raises a
  \<^verbatim>\<open>UnicodeEncodeError\<close> at the second path, after the file was opened and the first
  path written; the second call finds the file, does not walk, and returns the one path
  \<open>/r/a\<close>.
\<close>

theorem cached_listing_counterexample:
  "fst (cached_list_filepaths
          \<lparr>makedirs_error = \<lambda>p d. None, open_read_error = \<lambda>p d. None,
           open_write_error = \<lambda>p d. None,
           write_error = \<lambda>t d. if CHR 0xFF \<in> set t then Some UnicodeEncodeError else None\<rparr>
          (\<lambda>root. ''0a'') (\<lambda>root. [(root, [''a'', [CHR 0xFF], ''c''])]) ''/r''
          \<lparr>files = Map.empty, dirs = {}, walked = []\<rparr>)
     = Inl UnicodeEncodeError
   \<and> snd (cached_list_filepaths
          \<lparr>makedirs_error = \<lambda>p d. None, open_read_error = \<lambda>p d. None,
           open_write_error = \<lambda>p d. None,
           write_error = \<lambda>t d. if CHR 0xFF \<in> set t then Some UnicodeEncodeError else None\<rparr>
          (\<lambda>root. ''0a'') (\<lambda>root. [(root, [''a'', [CHR 0xFF], ''c''])]) ''/r''
          \<lparr>files = Map.empty, dirs = {}, walked = []\<rparr>)
     = \<lparr>files = [''/cache/0a/filepaths.txt'' \<mapsto> ''/r/a'' @ [CHR 0x0A]],
        dirs = {''/cache/0a''}, walked = [''/r'']\<rparr>
   \<and> cached_list_filepaths
          \<lparr>makedirs_error = \<lambda>p d. None, open_read_error = \<lambda>p d. None,
           open_write_error = \<lambda>p d. None,
           write_error = \<lambda>t d. if CHR 0xFF \<in> set t then Some UnicodeEncodeError else None\<rparr>
          (\<lambda>root. ''0a'') (\<lambda>root. [(root, [''a'', [CHR 0xFF], ''c''])]) ''/r''
          \<lparr>files = [''/cache/0a/filepaths.txt'' \<mapsto> ''/r/a'' @ [CHR 0x0A]],
           dirs = {''/cache/0a''}, walked = [''/r'']\<rparr>
     = (Inr [''/r/a''],
        \<lparr>files = [''/cache/0a/filepaths.txt'' \<mapsto> ''/r/a'' @ [CHR 0x0A]],
         dirs = {''/cache/0a''}, walked = [''/r'']\<rparr>)"
  by (simp add: cached_list_filepaths_def Let_def os_path_join_def startswith_def
      py_replace_def py_dirname_def)


text \<open>
  C8, amended: when the cache file of a root does not exist and the first call returns,
  it has walked the file system once, returned the paths found, and left them, each
  followed by a line feed, in \<open>/cache/<sha256(root)>/filepaths.txt\<close>. Every later call
  with this root on a disk that holds this file, and on which the file can be opened,
  returns what it reads from the file and leaves the disk as it is, without a walk; and
  provided no path contains a line feed or a carriage return, it returns the list of the
  first call.
\<close>

theorem cached_listing_reused:
  assumes "filepath = ''/cache/'' @ sha256_hexdigest root @ ''/filepaths.txt''"
    and "filepath \<notin> dom (files d)" and "filepath \<notin> dirs d"
    and "fst (cached_list_filepaths os sha256_hexdigest os_walk root d) = Inr filepaths"
  shows "filepaths
           = concat (map (\<lambda>(dirpath, filenames). map (os_path_join dirpath) filenames)
                       (os_walk root))
       \<and> snd (cached_list_filepaths os sha256_hexdigest os_walk root d)
           = d\<lparr>walked := walked d @ [root],
               dirs := insert (py_dirname filepath) (dirs d),
               files := (files d)(filepath \<mapsto> concat (map (\<lambda>p. p @ [CHR 0x0A]) filepaths))\<rparr>
       \<and> (\<forall>d2. files d2 filepath = Some (concat (map (\<lambda>p. p @ [CHR 0x0A]) filepaths))
                \<and> open_read_error os filepath d2 = None \<longrightarrow>
              cached_list_filepaths os sha256_hexdigest os_walk root d2
                = (Inr (map (\<lambda>line. py_replace line [CHR 0x0A] [])
                          (readlines []
                             (universal_newlines
                                (concat (map (\<lambda>p. p @ [CHR 0x0A]) filepaths))))), d2)
              \<and> ((\<forall>p\<in>set filepaths. CHR 0x0A \<notin> set p \<and> CHR 0x0D \<notin> set p) \<longrightarrow>
                   cached_list_filepaths os sha256_hexdigest os_walk root d2
                     = (Inr filepaths, d2)))"
proof -
  let ?ps = "concat (map (\<lambda>(dirpath, filenames). map (os_path_join dirpath) filenames) (os_walk root))"
  let ?d1 = "d\<lparr>walked := walked d @ [root]\<rparr>"
  let ?d2 = "?d1\<lparr>dirs := insert (py_dirname filepath) (dirs ?d1)\<rparr>"
  have m: "makedirs_error os (py_dirname filepath) ?d1 = None"
    using assms by (auto simp add: cached_list_filepaths_def Let_def split: option.splits)
  have ow: "open_write_error os filepath ?d2 = None"
    using assms m by (auto simp add: cached_list_filepaths_def Let_def split: option.splits)
  have unfolded: "cached_list_filepaths os sha256_hexdigest os_walk root d =
      (case write_lines os filepath ?ps [] ?d2 of
         (Some e, d3) \<Rightarrow> (Inl e, d3)
       | (None, d3) \<Rightarrow> (Inr ?ps, d3))"
    using assms(1-3) m ow by (simp add: cached_list_filepaths_def Let_def)
  have wl: "fst (write_lines os filepath ?ps [] ?d2) = None"
    using assms(4) unfolding unfolded by (auto split: prod.splits option.splits)
  have ps: "filepaths = ?ps"
    using assms(4) unfolding unfolded by (auto split: prod.splits option.splits)
  have d3: "snd (write_lines os filepath ?ps [] ?d2)
      = ?d2\<lparr>files := (files ?d2)(filepath \<mapsto> concat (map (\<lambda>l. l @ [CHR 0x0A]) ?ps))\<rparr>"
    using write_lines_returns[OF wl] by simp
  have c2: "snd (cached_list_filepaths os sha256_hexdigest os_walk root d)
           = d\<lparr>walked := walked d @ [root],
               dirs := insert (py_dirname filepath) (dirs d),
               files := (files d)(filepath \<mapsto> concat (map (\<lambda>p. p @ [CHR 0x0A]) filepaths))\<rparr>"
    unfolding unfolded ps using wl d3 by (auto split: prod.splits option.splits)
  have c3: "cached_list_filepaths os sha256_hexdigest os_walk root d2
                = (Inr (map (\<lambda>line. py_replace line [CHR 0x0A] [])
                          (readlines []
                             (universal_newlines
                                (concat (map (\<lambda>p. p @ [CHR 0x0A]) filepaths))))), d2)
              \<and> ((\<forall>p\<in>set filepaths. CHR 0x0A \<notin> set p \<and> CHR 0x0D \<notin> set p) \<longrightarrow>
                   cached_list_filepaths os sha256_hexdigest os_walk root d2
                     = (Inr filepaths, d2))"
    if h: "files d2 filepath = Some (concat (map (\<lambda>p. p @ [CHR 0x0A]) filepaths))
                \<and> open_read_error os filepath d2 = None" for d2
  proof -
    from h have dm: "filepath \<in> dom (files d2)" by blast
    have r: "cached_list_filepaths os sha256_hexdigest os_walk root d2
                = (Inr (map (\<lambda>line. py_replace line [CHR 0x0A] [])
                          (readlines []
                             (universal_newlines
                                (concat (map (\<lambda>p. p @ [CHR 0x0A]) filepaths))))), d2)"
      using h dm assms(1) by (simp add: cached_list_filepaths_def Let_def)
    show ?thesis using r read_back[of filepaths] by simp
  qed
  show ?thesis
    apply (intro conjI allI impI)
       apply (rule ps)
      apply (rule c2)
     apply (use c3 in blast)
    apply (use c3 in blast)
    done
qed

theorem cached_listing_reused_witness:
  "''/cache/0a/filepaths.txt'' \<notin> dom (files \<lparr>files = Map.empty, dirs = {}, walked = []\<rparr>)
   \<and> ''/cache/0a/filepaths.txt'' \<notin> dirs \<lparr>files = Map.empty, dirs = {}, walked = []\<rparr>
   \<and> cached_list_filepaths
          \<lparr>makedirs_error = \<lambda>p d. None, open_read_error = \<lambda>p d. None,
           open_write_error = \<lambda>p d. None,
           write_error = \<lambda>t d. if CHR 0xFF \<in> set t then Some UnicodeEncodeError else None\<rparr>
          (\<lambda>root. ''0a'') (\<lambda>root. [(root, [''a'', ''b''])]) ''/r''
          \<lparr>files = Map.empty, dirs = {}, walked = []\<rparr>
       = (Inr [''/r/a'', ''/r/b''],
          \<lparr>files = [''/cache/0a/filepaths.txt'' \<mapsto> ''/r/a'' @ [CHR 0x0A] @ ''/r/b'' @ [CHR 0x0A]],
           dirs = {''/cache/0a''}, walked = [''/r'']\<rparr>)
   \<and> cached_list_filepaths
          \<lparr>makedirs_error = \<lambda>p d. None, open_read_error = \<lambda>p d. None,
           open_write_error = \<lambda>p d. None,
           write_error = \<lambda>t d. if CHR 0xFF \<in> set t then Some UnicodeEncodeError else None\<rparr>
          (\<lambda>root. ''0a'') (\<lambda>root. [(root, [''a'', ''b''])]) ''/r''
          \<lparr>files = [''/cache/0a/filepaths.txt'' \<mapsto> ''/r/a'' @ [CHR 0x0A] @ ''/r/b'' @ [CHR 0x0A]],
           dirs = {''/cache/0a''}, walked = [''/r'']\<rparr>
       = (Inr [''/r/a'', ''/r/b''],
          \<lparr>files = [''/cache/0a/filepaths.txt'' \<mapsto> ''/r/a'' @ [CHR 0x0A] @ ''/r/b'' @ [CHR 0x0A]],
           dirs = {''/cache/0a''}, walked = [''/r'']\<rparr>)"
proof -
  let ?os = "\<lparr>makedirs_error = \<lambda>(p::string) (d::disk). None, open_read_error = \<lambda>p d. None,
           open_write_error = \<lambda>p d. None,
           write_error = \<lambda>t d. if CHR 0xFF \<in> set t then Some UnicodeEncodeError else None\<rparr>"
  let ?h = "\<lambda>root :: string. ''0a''"
  let ?walk = "\<lambda>root :: string. [(root, [''a'', ''b''])]"
  let ?d0 = "\<lparr>files = Map.empty, dirs = {}, walked = []\<rparr>"
  let ?D1 = "\<lparr>files = [''/cache/0a/filepaths.txt'' \<mapsto> ''/r/a'' @ [CHR 0x0A] @ ''/r/b'' @ [CHR 0x0A]],
           dirs = {''/cache/0a''}, walked = [''/r'']\<rparr>"
  have a: "''/cache/0a/filepaths.txt'' = ''/cache/'' @ ?h ''/r'' @ ''/filepaths.txt''"
    by simp
  have b: "''/cache/0a/filepaths.txt'' \<notin> dom (files ?d0)"
    and c: "''/cache/0a/filepaths.txt'' \<notin> dirs ?d0"
    by simp_all
  have first: "cached_list_filepaths ?os ?h ?walk ''/r'' ?d0 = (Inr [''/r/a'', ''/r/b''], ?D1)"
    by (simp add: cached_list_filepaths_def Let_def os_path_join_def startswith_def
        py_dirname_def)
  then have e: "fst (cached_list_filepaths ?os ?h ?walk ''/r'' ?d0) = Inr [''/r/a'', ''/r/b'']"
    by simp
  note t = cached_listing_reused[where os = ?os and sha256_hexdigest = ?h and root = "''/r''"
      and d = ?d0 and filepath = "''/cache/0a/filepaths.txt''" and os_walk = ?walk
      and filepaths = "[''/r/a'', ''/r/b'']", OF a b c e]
  have pre: "files ?D1 ''/cache/0a/filepaths.txt''
               = Some (concat (map (\<lambda>p. p @ [CHR 0x0A]) [''/r/a'', ''/r/b'']))
             \<and> open_read_error ?os ''/cache/0a/filepaths.txt'' ?D1 = None"
    by simp
  have clean: "\<forall>p\<in>set [''/r/a'', ''/r/b'']. CHR 0x0A \<notin> set p \<and> CHR 0x0D \<notin> set p"
    by simp
  have second: "cached_list_filepaths ?os ?h ?walk ''/r'' ?D1 = (Inr [''/r/a'', ''/r/b''], ?D1)"
    using t[THEN conjunct2, THEN conjunct2, THEN spec, of ?D1, THEN mp, OF pre,
        THEN conjunct2, THEN mp, OF clean] .
  show ?thesis
    apply (intro conjI)
       apply (rule b)
      apply (rule c)
     apply (rule first)
    apply (rule second)
    done
qed

section \<open>Lemmas on work units, the downloader and the remover\<close>

lemma count_list_distinct: "distinct xs \<Longrightarrow> x \<in> set xs \<Longrightarrow> count_list xs x = 1"
  by (induction xs) auto

lemma count_list_filter: "count_list (filter P xs) x = (if P x then count_list xs x else 0)"
  by (induction xs) auto

lemma count_list_map_Some: "count_list (map Some xs) (Some x) = count_list xs x"
  by (induction xs) auto

lemma sum_list_single: "k < m \<Longrightarrow> sum_list (map (\<lambda>d. if d = k then (1::nat) else 0) [0..<m]) = 1"
proof (induction m)
  case 0
  then show ?case by simp
next
  case (Suc m)
  show ?case
  proof (cases "k = m")
    case True
    have "sum_list (map (\<lambda>d. if d = k then (1::nat) else 0) [0..<m]) = 0"
      using True by simp
    then show ?thesis using True by simp
  next
    case False
    then show ?thesis using Suc by simp
  qed
qed

lemma unit_queued_once:
  assumes "0 < n" "r < length ps"
  shows "count_list
           (concat (map (\<lambda>d. map Some (filter (\<lambda>u. int (fst u) mod n = int d) (enumerate 0 ps)) @ [None])
                      [0..<nat n]))
           (Some (r, ps ! r)) = 1"
proof -
  let ?k = "nat (int r mod n)"
  have k: "?k < nat n" using assms(1) by (simp add: nat_less_iff)
  have mem: "(r, ps ! r) \<in> set (enumerate 0 ps)"
    using assms(2) by (simp add: in_set_enumerate_eq)
  have one: "count_list (enumerate 0 ps) (r, ps ! r) = 1"
    using mem by (simp add: count_list_distinct)
  have each: "count_list (map Some (filter (\<lambda>u. int (fst u) mod n = int d) (enumerate 0 ps)) @ [None])
                (Some (r, ps ! r)) = (if d = ?k then 1 else 0)" for d
  proof -
    have "int r mod n = int d \<longleftrightarrow> d = ?k" using assms(1) by auto
    then show ?thesis by (simp add: count_list_map_Some count_list_filter one)
  qed
  show ?thesis
    unfolding count_list_concat map_map comp_def each using sum_list_single[OF k] .
qed

lemma item_paths_nonempty: "has_path root item \<Longrightarrow> item_paths root item \<noteq> []"
  by (simp add: has_path_def item_paths_def indexed_paths_empty)

lemma collect_paths_closed:
  assumes "\<forall>item\<in>set (self_items w). has_path (self_root w) item" "self_paths w = []"
  shows "collect_paths w =
     Returned (w\<lparr>self_paths := map (item_paths (self_root w)) (self_items w),
                 self_collected_items := self_collected_items w + length (self_items w),
                 self_items := map (rewritten (self_root w) (self_cache_dir w)) (self_items w)\<rparr>)"
  using collect_loop_returns[OF assms(1), of "[]"] assms(2) by (simp add: collect_paths_def)

lemma download_paths_os_returned:
  "download_paths_os os root remote_root cache_dir paths st = Returned st' \<Longrightarrow>
     os_requests st' = os_requests st
        @ map (\<lambda>p. (py_replace p root remote_root, py_replace p root cache_dir)) paths
     \<and> os_queue_out st' = os_queue_out st"
proof (induction paths arbitrary: st)
  case Nil
  then show ?case by simp
next
  case (Cons path rest)
  from Cons.prems obtain d3 where
    step: "download_paths_os os root remote_root cache_dir rest
             (st\<lparr>os_disk := d3,
                 os_requests := os_requests st
                   @ [(py_replace path root remote_root, py_replace path root cache_dir)]\<rparr>)
           = Returned st'"
    by (auto simp add: Let_def split: sum.splits if_splits)
  from Cons.IH[OF step] show ?case by simp
qed

lemma download_unit_os_returned:
  assumes "\<not> list_all (\<lambda>p. path_exists os (os_disk st) (py_replace p root cache_dir)) paths"
    and "download_data_target_os os root remote_root cache_dir [Some (index, paths), None] st
           = Returned st'"
  shows "os_requests st' = os_requests st
        @ map (\<lambda>p. (py_replace p root remote_root, py_replace p root cache_dir)) paths
     \<and> os_queue_out st' = os_queue_out st @ [Some index, None]"
proof -
  from assms obtain st1 where
    a: "download_paths_os os root remote_root cache_dir paths st = Returned st1"
    and b: "st' = st1\<lparr>os_queue_out := os_queue_out st1 @ [Some index, None]\<rparr>"
    by (auto simp add: download_data_target_os_def split: option.splits outcome.splits)
  from download_paths_os_returned[OF a] b show ?thesis by simp
qed

lemma remove_paths_returned:
  assumes "distinct (map (\<lambda>p. py_replace p root cache_dir) paths)"
    and "\<forall>p\<in>set paths. path_exists os (rm_disk st) (py_replace p root cache_dir)"
    and "\<forall>t\<in>T. \<forall>q\<in>T. \<forall>d d'. q \<noteq> t \<and> path_exists os d q \<and> os_remove os t d = Inr d'
            \<longrightarrow> path_exists os d' q"
    and "(\<lambda>p. py_replace p root cache_dir) ` set paths \<subseteq> T"
    and "remove_paths os root cache_dir paths st = Returned st'"
  shows "rm_calls st' = rm_calls st @ map (\<lambda>p. py_replace p root cache_dir) paths"
  using assms(1,2,4,5)
proof (induction paths arbitrary: st)
  case Nil
  then show ?case by simp
next
  case (Cons path rest)
  let ?t = "py_replace path root cache_dir"
  have ex: "path_exists os (rm_disk st) ?t" using Cons.prems(2) by simp
  from Cons.prems(4) ex obtain d where
    rem: "os_remove os ?t (rm_disk st) = Inr d"
    and step: "remove_paths os root cache_dir rest (st\<lparr>rm_disk := d, rm_calls := rm_calls st @ [?t]\<rparr>)
             = Returned st'"
    by (auto simp add: Let_def split: sum.splits)
  have tT: "?t \<in> T" using Cons.prems(3) by simp
  have still: "\<forall>p\<in>set rest. path_exists os (rm_disk (st\<lparr>rm_disk := d, rm_calls := rm_calls st @ [?t]\<rparr>))
                 (py_replace p root cache_dir)"
  proof
    fix p assume p: "p \<in> set rest"
    let ?q = "py_replace p root cache_dir"
    have qT: "?q \<in> T" using Cons.prems(3) p by auto
    have "?t \<notin> (\<lambda>p. py_replace p root cache_dir) ` set rest" using Cons.prems(1) by simp
    then have ne: "?q \<noteq> ?t" using p by (metis imageI)
    have "path_exists os (rm_disk st) ?q" using Cons.prems(2) p by simp
    with assms(3) tT qT ne rem have "path_exists os d ?q" by blast
    then show "path_exists os (rm_disk (st\<lparr>rm_disk := d, rm_calls := rm_calls st @ [?t]\<rparr>)) ?q"
      by simp
  qed
  have d: "distinct (map (\<lambda>p. py_replace p root cache_dir) rest)" using Cons.prems(1) by simp
  have sub: "(\<lambda>p. py_replace p root cache_dir) ` set rest \<subseteq> T" using Cons.prems(3) by auto
  from Cons.IH[OF d still sub step] show ?case by simp
qed

lemma remove_unit_returned:
  assumes "distinct (map (\<lambda>p. py_replace p root cache_dir) paths)"
    and "\<forall>p\<in>set paths. path_exists os (rm_disk st) (py_replace p root cache_dir)"
    and "\<forall>p\<in>set paths. \<forall>q\<in>set paths. \<forall>d d'.
            py_replace q root cache_dir \<noteq> py_replace p root cache_dir
            \<and> path_exists os d (py_replace q root cache_dir)
            \<and> os_remove os (py_replace p root cache_dir) d = Inr d'
            \<longrightarrow> path_exists os d' (py_replace q root cache_dir)"
    and "remove_target os root cache_dir [Some paths, None] st = Returned st'"
  shows "rm_calls st' = rm_calls st @ map (\<lambda>p. py_replace p root cache_dir) paths"
proof -
  from assms(4) have r: "remove_paths os root cache_dir paths st = Returned st'"
    by (auto split: outcome.splits)
  have fr: "\<forall>t\<in>(\<lambda>p. py_replace p root cache_dir) ` set paths.
            \<forall>q\<in>(\<lambda>p. py_replace p root cache_dir) ` set paths. \<forall>d d'.
              q \<noteq> t \<and> path_exists os d q \<and> os_remove os t d = Inr d' \<longrightarrow> path_exists os d' q"
    using assms(3) by blast
  show ?thesis by (rule remove_paths_returned[OF assms(1,2) fr subset_refl r])
qed

lemma process_index_not_blocked: "process_index w r \<noteq> Blocked w'"
  by (cases "self_worker_queue w")
    (auto simp add: process_index_def py_index_def Let_def split: sum.splits)

lemma process_index_keeps:
  "self_items (final (process_index w r)) = self_items w
   \<and> self_paths (final (process_index w r)) = self_paths w
   \<and> self_remove (final (process_index w r)) = self_remove w
   \<and> self_start_index (final (process_index w r)) = self_start_index w
   \<and> self_prepare_item (final (process_index w r)) = self_prepare_item w"
  by (cases "self_worker_queue w")
    (auto simp add: process_index_def py_index_def Let_def)

lemma run_loop_keeps:
  "self_items (final (run_loop w k ready)) = self_items w
   \<and> self_paths (final (run_loop w k ready)) = self_paths w
   \<and> self_remove (final (run_loop w k ready)) = self_remove w
   \<and> self_start_index (final (run_loop w k ready)) = self_start_index w
   \<and> self_prepare_item (final (run_loop w k ready)) = self_prepare_item w"
proof (induction ready arbitrary: w k)
  case Nil
  then show ?case by simp
next
  case (Cons m ready)
  show ?case
  proof (cases m)
    case None
    then show ?thesis using Cons.IH[of w "k + 1"] by simp
  next
    case (Some r)
    show ?thesis
    proof (cases "process_index w r")
      case (Returned w1)
      then show ?thesis using Some Cons.IH[of w1 k] process_index_keeps[of w r] by simp
    next
      case (Raised e w1)
      then show ?thesis using Some process_index_keeps[of w r] by simp
    next
      case (Blocked w1)
      then show ?thesis using Some process_index_keeps[of w r] by simp
    qed
  qed
qed

lemma run_loop_append:
  "run_loop w k pre = Blocked wp \<Longrightarrow> run_loop w k (pre @ ys) = run_loop wp (k + int (count_list pre None)) ys"
proof (induction pre arbitrary: w k)
  case Nil
  then show ?case by simp
next
  case (Cons m pre)
  show ?case
  proof (cases m)
    case None
    with Cons.prems have ne: "k + 1 \<noteq> self_num_downloaders w"
      and b: "run_loop w (k + 1) pre = Blocked wp"
      by (auto split: if_splits)
    from Cons.IH[OF b] ne None show ?thesis by (simp add: algebra_simps)
  next
    case (Some r)
    show ?thesis
    proof (cases "process_index w r")
      case (Returned w1)
      with Cons.prems Some have b: "run_loop w1 k pre = Blocked wp" by simp
      from Cons.IH[OF b] Returned Some show ?thesis by simp
    next
      case (Raised e w1)
      with Cons.prems Some show ?thesis by simp
    next
      case (Blocked w1)
      with process_index_not_blocked show ?thesis by blast
    qed
  qed
qed

lemma download_paths_os_queue:
  "os_queue_out (final (download_paths_os os root remote_root cache_dir paths st)) = os_queue_out st
   \<and> (\<forall>st'. download_paths_os os root remote_root cache_dir paths st \<noteq> Blocked st')"
proof (induction paths arbitrary: st)
  case Nil
  then show ?case by simp
next
  case (Cons path rest)
  have step: "os_queue_out (final (download_paths_os os root remote_root cache_dir rest
                 (st\<lparr>os_disk := d3, os_requests := rq\<rparr>))) = os_queue_out st
   \<and> (\<forall>st'. download_paths_os os root remote_root cache_dir rest
                 (st\<lparr>os_disk := d3, os_requests := rq\<rparr>) \<noteq> Blocked st')" for d3 rq
    using Cons.IH[of "st\<lparr>os_disk := d3, os_requests := rq\<rparr>"] by simp
  show ?case
    using step by (simp add: Let_def split: sum.splits)
qed

lemma download_units_os_sentinel:
  "case download_units_os os root remote_root cache_dir (map Some units @ None # later) st of
     Returned st' \<Rightarrow> os_queue_out st' = os_queue_out st @ map (\<lambda>u. Some (fst u)) units @ [None]
   | Raised e st' \<Rightarrow>
       (\<exists>k<length units. os_queue_out st' = os_queue_out st @ map (\<lambda>u. Some (fst u)) (take k units))
   | Blocked st' \<Rightarrow> False"
proof (induction units arbitrary: st)
  case Nil
  then show ?case by simp
next
  case (Cons u units)
  obtain index paths where u: "u = (index, paths)" by (cases u)
  let ?rest = "map Some units @ None # later"
  have cont: "case download_units_os os root remote_root cache_dir ?rest s of
     Returned st' \<Rightarrow> os_queue_out st' = os_queue_out st @ map (\<lambda>u. Some (fst u)) (u # units) @ [None]
   | Raised e st' \<Rightarrow>
       (\<exists>k<length (u # units). os_queue_out st' = os_queue_out st @ map (\<lambda>u. Some (fst u)) (take k (u # units)))
   | Blocked st' \<Rightarrow> False"
    if s: "os_queue_out s = os_queue_out st @ [Some index]" for s :: "('a, 'b) os_downloader"
  proof (cases "download_units_os os root remote_root cache_dir ?rest s")
    case (Returned st')
    then show ?thesis using Cons.IH[of s] u s by simp
  next
    case (Raised e st')
    then obtain k where k: "k < length units"
      "os_queue_out st' = os_queue_out s @ map (\<lambda>u. Some (fst u)) (take k units)"
      using Cons.IH[of s] by auto
    then have "Suc k < length (u # units)
      \<and> os_queue_out st' = os_queue_out st @ map (\<lambda>u. Some (fst u)) (take (Suc k) (u # units))"
      using u s by simp
    then show ?thesis using Raised by auto
  next
    case (Blocked st')
    then show ?thesis using Cons.IH[of s] by simp
  qed
  show ?case
  proof (cases "list_all (\<lambda>p. path_exists os (os_disk st) (py_replace p root cache_dir)) paths")
    case True
    then have "download_units_os os root remote_root cache_dir (map Some (u # units) @ None # later) st
      = download_units_os os root remote_root cache_dir ?rest (st\<lparr>os_queue_out := os_queue_out st @ [Some index]\<rparr>)"
      using u by simp
    then show ?thesis using cont[of "st\<lparr>os_queue_out := os_queue_out st @ [Some index]\<rparr>"] by simp
  next
    case False
    show ?thesis
    proof (cases "download_paths_os os root remote_root cache_dir paths st")
      case (Returned st1)
      have q1: "os_queue_out st1 = os_queue_out st"
        using download_paths_os_queue[where os = os and root = root and remote_root = remote_root
            and cache_dir = cache_dir and paths = paths and st = st] Returned by simp
      have "download_units_os os root remote_root cache_dir (map Some (u # units) @ None # later) st
        = download_units_os os root remote_root cache_dir ?rest
            (st1\<lparr>os_queue_out := os_queue_out st1 @ [Some index]\<rparr>)"
        using u False Returned by simp
      then show ?thesis
        using cont[of "st1\<lparr>os_queue_out := os_queue_out st1 @ [Some index]\<rparr>"] q1 by simp
    next
      case (Raised e st1)
      have q1: "os_queue_out st1 = os_queue_out st"
        using download_paths_os_queue[where os = os and root = root and remote_root = remote_root
            and cache_dir = cache_dir and paths = paths and st = st] Raised by simp
      have "download_units_os os root remote_root cache_dir (map Some (u # units) @ None # later) st
        = Raised e st1"
        using u False Raised by simp
      moreover have "\<exists>k<length (u # units).
          os_queue_out st1 = os_queue_out st @ map (\<lambda>u. Some (fst u)) (take k (u # units))"
        using q1 by (intro exI[of _ 0]) simp
      ultimately show ?thesis by simp
    next
      case (Blocked st1)
      then show ?thesis
        using download_paths_os_queue[where os = os and root = root and remote_root = remote_root
            and cache_dir = cache_dir and paths = paths and st = st] by simp
    qed
  qed
qed

lemma downloader_os_sentinel:
  "case download_data_target_os os root remote_root cache_dir (map Some units @ [None]) st of
     Returned st' \<Rightarrow> os_queue_out st' = os_queue_out st @ map (\<lambda>u. Some (fst u)) units @ [None]
   | Raised e st' \<Rightarrow> count_list (os_queue_out st') None = count_list (os_queue_out st) None
   | Blocked st' \<Rightarrow> False"
proof (cases "boto3_client os")
  case (Some e)
  then show ?thesis by (simp add: download_data_target_os_def)
next
  case None
  then have eq: "download_data_target_os os root remote_root cache_dir (map Some units @ [None]) st
      = download_units_os os root remote_root cache_dir (map Some units @ None # []) st"
    by (simp add: download_data_target_os_def)
  show ?thesis
    unfolding eq
    using download_units_os_sentinel[where os = os and root = root and remote_root = remote_root
        and cache_dir = cache_dir and units = units and later = "[]" and st = st]
    by (auto split: outcome.splits simp: count_list_Some_None)
qed

section \<open>Properties of BaseWorker.run\<close>

lemma run_enters_loop:
  assumes "\<forall>item\<in>set (self_items w). has_path (self_root w) item"
    and "self_paths w = []" and "self_to_download_queues w = []"
    and "0 < self_num_downloaders w"
  shows "run sha256_hexdigest w ready = run_loop (loop_entry sha256_hexdigest w) 0 ready"
proof -
  let ?c = "create_cache sha256_hexdigest w"
  have c: "self_items ?c = self_items w" "self_root ?c = self_root w" "self_paths ?c = []"
    by (simp_all add: create_cache_def Let_def assms(2))
  have hp: "\<forall>item\<in>set (self_items ?c). has_path (self_root ?c) item"
    unfolding c by (rule assms(1))
  let ?w1 = "?c\<lparr>self_paths := map (item_paths (self_root ?c)) (self_items ?c),
                 self_collected_items := self_collected_items ?c + length (self_items ?c),
                 self_items := map (rewritten (self_root ?c) (self_cache_dir ?c)) (self_items ?c)\<rparr>"
  have col: "collect_paths ?c = Returned ?w1"
    by (rule collect_paths_closed[OF hp c(3)])
  have n1: "0 < self_num_downloaders ?w1" "self_to_download_queues ?w1 = []"
    using assms(3,4) by (simp_all add: create_cache_def Let_def)
  note sd = start_downloaders_closed[OF n1]
  show ?thesis
    unfolding run_def col outcome.case sd
    by (simp add: start_remover_def loop_entry_def create_cache_def Let_def)
qed

lemma run_cache_closed:
  fixes w :: "'v worker"
  assumes "\<forall>item\<in>set (self_items w). has_path (self_root w) item"
    and "self_paths w = []" and "self_to_download_queues w = []"
    and "0 < self_num_downloaders w"
    and "\<forall>r\<in>set (consumed (self_num_downloaders w) 0 ready). r < length (self_items w)"
  shows "self_cache (final (run sha256_hexdigest w ready)) =
     (\<lambda>slot. if \<exists>r\<in>set (consumed (self_num_downloaders w) 0 ready).
                   slot = int r + self_start_index w
             then Some (slot_value w
                          (rewritten (self_root w)
                             (''/cache/'' @ sha256_hexdigest (self_root w) @ ''/data'')
                             (self_items w ! nat (slot - self_start_index w))))
             else None)"
proof -
  let ?W = "loop_entry sha256_hexdigest w"
  let ?cd = "''/cache/'' @ sha256_hexdigest (self_root w) @ ''/data''"
  have f: "self_num_downloaders ?W = self_num_downloaders w"
    "self_items ?W = map (rewritten (self_root w) ?cd) (self_items w)"
    "length (self_paths ?W) = length (self_items w)"
    "self_start_index ?W = self_start_index w" "self_cache ?W = Map.empty"
    "self_prepare_item ?W = self_prepare_item w"
    by (simp_all add: loop_entry_def)
  have valid: "\<forall>r\<in>set (consumed (self_num_downloaders ?W) 0 ready).
      r < length (self_items ?W) \<and> (self_remove ?W \<longrightarrow> r < length (self_paths ?W))"
    unfolding f using assms(5) by simp
  have sv: "slot_value ?W = slot_value w" by (rule slot_value_cong) (rule f(6))
  have "self_cache (final (run_loop ?W 0 ready)) =
     (\<lambda>slot. if \<exists>r\<in>set (consumed (self_num_downloaders w) 0 ready).
                   slot = int r + self_start_index w
             then Some (slot_value w
                          (map (rewritten (self_root w) ?cd) (self_items w)
                             ! nat (slot - self_start_index w)))
             else None)"
    using run_loop_cache[OF valid] unfolding f sv by simp
  also have "\<dots> =
     (\<lambda>slot. if \<exists>r\<in>set (consumed (self_num_downloaders w) 0 ready).
                   slot = int r + self_start_index w
             then Some (slot_value w
                          (rewritten (self_root w) ?cd
                             (self_items w ! nat (slot - self_start_index w))))
             else None)"
    using assms(5) by (auto simp: fun_eq_iff)
  finally show ?thesis unfolding run_enters_loop[OF assms(1-4)] .
qed


text \<open>
  C3, as stated: for an index \<open>r\<close> from the ready queue, \<^verbatim>\<open>run\<close> writes
  \<^verbatim>\<open>prepare_item(items[r])\<close>, or \<open>items[r]\<close> itself when there is no
  \<^verbatim>\<open>prepare_item\<close>, into slot \<open>start_index + r\<close>. A worker without \<^verbatim>\<open>prepare_item\<close>,
  with root \<open>/r\<close>, start index 10 and the one item \<open>/r/a\<close> stores in slot 10 not that item
  but \<open>/cache/0a/data/a\<close>: \<^verbatim>\<open>_collect_paths\<close> has replaced the items by copies whose paths
  point into the cache directory before the loop reads them.
\<close>

theorem run_stores_rewritten_counterexample:
  "self_cache (final (run (\<lambda>root. ''0a'')
       (base_worker 0 10 0 (None :: (item \<Rightarrow> nat) option) ''/r'' ''s3://b''
          [Leaf (PyStr ''/r/a'')] None 1 False) [Some 0, None])) 10
     = Some (Raw (Leaf (PyStr ''/cache/0a/data/a'')))
   \<and> Some (Raw (Leaf (PyStr ''/cache/0a/data/a''))) \<noteq>
       (Some (Raw (Leaf (PyStr ''/r/a''))) :: nat stored option)"
proof -
  let ?w = "base_worker 0 10 0 (None :: (item \<Rightarrow> nat) option) ''/r'' ''s3://b''
              [Leaf (PyStr ''/r/a'')] None 1 False"
  have f: "self_items ?w = [Leaf (PyStr ''/r/a'')]" "self_root ?w = ''/r''"
    "self_paths ?w = []" "self_to_download_queues ?w = []" "self_num_downloaders ?w = 1"
    "self_start_index ?w = 10" "self_prepare_item ?w = None"
    by (simp_all add: base_worker_def)
  have a1: "\<forall>item\<in>set (self_items ?w). has_path (self_root ?w) item"
    unfolding f by (simp add: has_path_def tree_flatten_def is_path_def startswith_def)
  have a4: "0 < self_num_downloaders ?w" unfolding f by simp
  have c: "consumed 1 0 [Some 0, None] = [0]" by simp
  have a5: "\<forall>r\<in>set (consumed (self_num_downloaders ?w) 0 [Some 0, None]). r < length (self_items ?w)"
    unfolding f c by simp
  have rw: "rewritten ''/r'' ''/cache/0a/data'' (Leaf (PyStr ''/r/a'')) = Leaf (PyStr ''/cache/0a/data/a'')"
    by (simp add: rewritten_def tree_flatten_def indexed_paths_def path_entry_def
        enumerate_eq_zip startswith_def py_replace_def)
  show ?thesis
    unfolding run_cache_closed[OF a1 f(3) f(4) a4 a5, of "\<lambda>root. ''0a''"] f c
    by (simp add: slot_value_def f rw)
qed


text \<open>
  C3, amended: for a worker all of whose items hold a file path, with at least one
  downloader, and for every index \<open>r\<close> that the main loop of \<^verbatim>\<open>run\<close> takes from the
  ready queue, slot \<open>start_index + r\<close> of the cache holds \<^verbatim>\<open>prepare_item\<close> applied to the
  rewritten item, or the rewritten item itself when there is no \<^verbatim>\<open>prepare_item\<close>; the
  rewritten item is \<open>items[r]\<close> with the root replaced by
  \<open>/cache/<sha256(root)>/data\<close> in each of its file paths. No other slot is written,
  distinct indices have distinct slots, and two arrival orders that deliver the same
  indices leave the same cache.
\<close>

theorem run_cache_slots:
  fixes w :: "'v worker"
  assumes "\<forall>item\<in>set (self_items w). has_path (self_root w) item"
    and "self_paths w = []" and "self_to_download_queues w = []"
    and "0 < self_num_downloaders w"
    and "\<forall>r\<in>set (consumed (self_num_downloaders w) 0 ready). r < length (self_items w)"
    and "set (consumed (self_num_downloaders w) 0 ready')
           = set (consumed (self_num_downloaders w) 0 ready)"
  shows "(\<forall>r\<in>set (consumed (self_num_downloaders w) 0 ready).
            self_cache (final (run sha256_hexdigest w ready)) (int r + self_start_index w)
              = Some (slot_value w
                        (rewritten (self_root w)
                           (''/cache/'' @ sha256_hexdigest (self_root w) @ ''/data'')
                           (self_items w ! r))))
       \<and> (\<forall>slot. (\<nexists>r. r \<in> set (consumed (self_num_downloaders w) 0 ready)
                        \<and> slot = int r + self_start_index w) \<longrightarrow>
            self_cache (final (run sha256_hexdigest w ready)) slot = None)
       \<and> (\<forall>r r'. r \<noteq> r' \<longrightarrow> int r + self_start_index w \<noteq> int r' + self_start_index w)
       \<and> self_cache (final (run sha256_hexdigest w ready'))
           = self_cache (final (run sha256_hexdigest w ready))"
proof -
  have v': "\<forall>r\<in>set (consumed (self_num_downloaders w) 0 ready'). r < length (self_items w)"
    using assms(5,6) by simp
  show ?thesis
    unfolding run_cache_closed[OF assms(1-5)] run_cache_closed[OF assms(1-4) v'] assms(6)
    by auto
qed

theorem run_cache_slots_witness:
  "has_path ''/r'' (Leaf (PyStr ''/r/a'')) \<and> has_path ''/r'' (Leaf (PyStr ''/r/b''))
   \<and> consumed 2 0 [Some 1, None, Some 0, None] = [1, 0]
   \<and> consumed 2 0 [Some 0, Some 1, None, None] = [0, 1]
   \<and> self_cache (final (run (\<lambda>root. ''0a'')
         (base_worker 0 10 0 (None :: (item \<Rightarrow> nat) option) ''/r'' ''s3://b''
            [Leaf (PyStr ''/r/a''), Leaf (PyStr ''/r/b'')] None 2 False)
         [Some 1, None, Some 0, None])) 11
       = Some (Raw (Leaf (PyStr ''/cache/0a/data/b'')))
   \<and> self_cache (final (run (\<lambda>root. ''0a'')
         (base_worker 0 10 0 (None :: (item \<Rightarrow> nat) option) ''/r'' ''s3://b''
            [Leaf (PyStr ''/r/a''), Leaf (PyStr ''/r/b'')] None 2 False)
         [Some 1, None, Some 0, None])) 10
       = Some (Raw (Leaf (PyStr ''/cache/0a/data/a'')))
   \<and> self_cache (final (run (\<lambda>root. ''0a'')
         (base_worker 0 10 0 (None :: (item \<Rightarrow> nat) option) ''/r'' ''s3://b''
            [Leaf (PyStr ''/r/a''), Leaf (PyStr ''/r/b'')] None 2 False)
         [Some 1, None, Some 0, None])) 12
       = None
   \<and> self_cache (final (run (\<lambda>root. ''0a'')
         (base_worker 0 10 0 (None :: (item \<Rightarrow> nat) option) ''/r'' ''s3://b''
            [Leaf (PyStr ''/r/a''), Leaf (PyStr ''/r/b'')] None 2 False)
         [Some 0, Some 1, None, None]))
       = self_cache (final (run (\<lambda>root. ''0a'')
         (base_worker 0 10 0 (None :: (item \<Rightarrow> nat) option) ''/r'' ''s3://b''
            [Leaf (PyStr ''/r/a''), Leaf (PyStr ''/r/b'')] None 2 False)
         [Some 1, None, Some 0, None]))"
proof -
  let ?w = "base_worker 0 10 0 (None :: (item \<Rightarrow> nat) option) ''/r'' ''s3://b''
              [Leaf (PyStr ''/r/a''), Leaf (PyStr ''/r/b'')] None 2 False"
  let ?h = "\<lambda>root :: string. ''0a''"
  have f: "self_items ?w = [Leaf (PyStr ''/r/a''), Leaf (PyStr ''/r/b'')]" "self_root ?w = ''/r''"
    "self_paths ?w = []" "self_to_download_queues ?w = []" "self_num_downloaders ?w = 2"
    "self_start_index ?w = 10" "self_prepare_item ?w = None"
    by (simp_all add: base_worker_def)
  have hp: "has_path ''/r'' (Leaf (PyStr ''/r/a''))" "has_path ''/r'' (Leaf (PyStr ''/r/b''))"
    by (simp_all add: has_path_def tree_flatten_def is_path_def startswith_def)
  have a1: "\<forall>item\<in>set (self_items ?w). has_path (self_root ?w) item"
    unfolding f using hp by simp
  have a4: "0 < self_num_downloaders ?w" unfolding f by simp
  have c: "consumed 2 0 [Some 1, None, Some 0, None] = [1, 0]"
    "consumed 2 0 [Some 0, Some 1, None, None] = [0, 1]"
    by simp_all
  have a5: "\<forall>r\<in>set (consumed (self_num_downloaders ?w) 0 [Some 1, None, Some 0, None]).
              r < length (self_items ?w)"
    unfolding f c by simp
  have a6: "set (consumed (self_num_downloaders ?w) 0 [Some 0, Some 1, None, None])
          = set (consumed (self_num_downloaders ?w) 0 [Some 1, None, Some 0, None])"
    unfolding f c by auto
  have rw: "rewritten ''/r'' ''/cache/0a/data'' (Leaf (PyStr ''/r/a'')) = Leaf (PyStr ''/cache/0a/data/a'')"
    "rewritten ''/r'' ''/cache/0a/data'' (Leaf (PyStr ''/r/b'')) = Leaf (PyStr ''/cache/0a/data/b'')"
    by (simp_all add: rewritten_def tree_flatten_def indexed_paths_def path_entry_def
        enumerate_eq_zip startswith_def py_replace_def)
  note t = run_cache_slots[OF a1 f(3) f(4) a4 a5 a6, of ?h, unfolded f c]
  have s11: "self_cache (final (run ?h ?w [Some 1, None, Some 0, None])) 11
       = Some (Raw (Leaf (PyStr ''/cache/0a/data/b'')))"
    using t[THEN conjunct1, THEN bspec, of 1] by (simp add: slot_value_def f rw)
  have s10: "self_cache (final (run ?h ?w [Some 1, None, Some 0, None])) 10
       = Some (Raw (Leaf (PyStr ''/cache/0a/data/a'')))"
    using t[THEN conjunct1, THEN bspec, of 0] by (simp add: slot_value_def f rw)
  have s12: "self_cache (final (run ?h ?w [Some 1, None, Some 0, None])) 12 = None"
    using t[THEN conjunct2, THEN conjunct1, THEN spec, of 12] by auto
  have same: "self_cache (final (run ?h ?w [Some 0, Some 1, None, None]))
       = self_cache (final (run ?h ?w [Some 1, None, Some 0, None]))"
    using t[THEN conjunct2, THEN conjunct2, THEN conjunct2] .
  show ?thesis
    apply (intro conjI)
           apply (rule hp(1))
          apply (rule hp(2))
         apply (rule c(1))
        apply (rule c(2))
       apply (rule s11)
      apply (rule s10)
     apply (rule s12)
    apply (rule same)
    done
qed

lemma process_index_queues:
  "self_to_download_queues (final (process_index w r)) = self_to_download_queues w"
  by (cases "self_worker_queue w")
    (auto simp add: process_index_def py_index_def Let_def)

lemma run_loop_queues:
  "self_to_download_queues (final (run_loop w k ready)) = self_to_download_queues w"
proof (induction ready arbitrary: w k)
  case Nil
  then show ?case by simp
next
  case (Cons m ready)
  show ?case
  proof (cases m)
    case None
    then show ?thesis using Cons.IH[of w "k + 1"] by simp
  next
    case (Some r)
    show ?thesis
    proof (cases "process_index w r")
      case (Returned w1)
      then show ?thesis using Some Cons.IH[of w1 k] process_index_queues[of w r] by simp
    next
      case (Raised e w1)
      then show ?thesis using Some process_index_queues[of w r] by simp
    next
      case (Blocked w1)
      then show ?thesis using Some process_index_queues[of w r] by simp
    qed
  qed
qed


text \<open>
  C9, as stated: each downloader forwards exactly one \<^verbatim>\<open>None\<close> to the ready queue
  before exiting. A downloader whose remote root is \<open>gs://b\<close>, on a disk of plain files
  and directories, ends with a \<^verbatim>\<open>ValueError\<close> on its first work unit and has put
  nothing on the ready queue, no \<^verbatim>\<open>None\<close> either.
\<close>

theorem dying_downloader_counterexample:
  "download_data_target_os files_and_dirs_os ''/r'' ''gs://b'' ''/cache/0a/data''
       [Some (0::nat, [''/r/a'']), None]
       \<lparr>os_disk = ({}, {}), os_requests = [], os_queue_out = []\<rparr>
     = Raised ValueError \<lparr>os_disk = ({}, {}), os_requests = [], os_queue_out = []\<rparr>
   \<and> os_queue_out (final (download_data_target_os files_and_dirs_os ''/r'' ''gs://b''
         ''/cache/0a/data'' [Some (0::nat, [''/r/a'']), None]
         \<lparr>os_disk = ({}, {}), os_requests = [], os_queue_out = []\<rparr>)) = []"
  by (simp add: download_data_target_os_def files_and_dirs_os_def py_replace_def startswith_def
      Let_def)


text \<open>
  C9, amended: for a worker all of whose items hold a file path, with at least one
  downloader, \<^verbatim>\<open>run\<close> gives each of the \<open>num_downloaders\<close> input queues its work units
  followed by exactly one \<^verbatim>\<open>None\<close>. A downloader that reads such a queue never waits
  forever; when it returns it has forwarded the indices of its units and then exactly
  one \<^verbatim>\<open>None\<close>, and when it ends with an exception, raised by \<^verbatim>\<open>urlparse\<close>, the
  operating system, boto3 or the check of the scheme, it has forwarded no \<^verbatim>\<open>None\<close>.
  \<^verbatim>\<open>run\<close> returns only on a \<^verbatim>\<open>None\<close> before which the ready queue delivered exactly
  \<open>num_downloaders - 1\<close> others, and it has then called \<^verbatim>\<open>cache.done()\<close> and put
  \<^verbatim>\<open>None\<close> on the remove queue; while fewer than \<open>num_downloaders\<close> sentinels have arrived
  it has not returned, \<^verbatim>\<open>cache.done()\<close> has not been called and it has put no
  \<^verbatim>\<open>None\<close> on the remove queue; and on the last of \<open>num_downloaders\<close> sentinels it does
  return, given that the indices delivered are indices of its items.
\<close>

theorem sentinels_before_run_returns:
  fixes w :: "'v worker"
  assumes "\<forall>item\<in>set (self_items w). has_path (self_root w) item"
    and "self_paths w = []" and "self_to_download_queues w = []"
    and "0 < self_num_downloaders w"
  shows
   "self_to_download_queues (final (run sha256_hexdigest w ready))
      = map (\<lambda>d. map Some (filter (\<lambda>u. int (fst u) mod self_num_downloaders w = int d)
                             (enumerate 0 (map (item_paths (self_root w)) (self_items w))))
                 @ [None])
          [0..<nat (self_num_downloaders w)]
    \<and> (case download_data_target_os os root remote_root cache_dir (map Some units @ [None]) st of
         Returned st' \<Rightarrow>
           os_queue_out st' = os_queue_out st @ map (\<lambda>u. Some (fst u)) units @ [None]
       | Raised e st' \<Rightarrow> count_list (os_queue_out st') None = count_list (os_queue_out st) None
       | Blocked st' \<Rightarrow> False)
    \<and> (\<forall>w'. run sha256_hexdigest w ready = Returned w' \<longrightarrow>
         (\<exists>pre post. ready = pre @ None # post
            \<and> int (count_list pre None) + 1 = self_num_downloaders w
            \<and> self_cache_done w'
            \<and> self_remove_queue w'
                 = self_remove_queue (final (run sha256_hexdigest w pre)) @ [None]))
    \<and> (int (count_list ready None) < self_num_downloaders w \<longrightarrow>
         (\<nexists>w'. run sha256_hexdigest w ready = Returned w')
         \<and> \<not> self_cache_done (final (run sha256_hexdigest w ready))
         \<and> count_list (self_remove_queue (final (run sha256_hexdigest w ready))) None
              = count_list (self_remove_queue w) None)
    \<and> ((\<forall>r\<in>set (consumed (self_num_downloaders w) 0 (before @ None # after)).
            r < length (self_items w))
        \<and> int (count_list before None) + 1 = self_num_downloaders w \<longrightarrow>
         (\<exists>w'. run sha256_hexdigest w (before @ None # after) = Returned w'
              \<and> self_cache_done w'))"
proof -
  let ?W = "loop_entry sha256_hexdigest w"
  note enter = run_enters_loop[OF assms, of sha256_hexdigest]
  have f: "self_num_downloaders ?W = self_num_downloaders w"
    "length (self_items ?W) = length (self_items w)"
    "length (self_paths ?W) = length (self_items w)"
    "self_cache_done ?W = False" "self_remove_queue ?W = self_remove_queue w"
    by (simp_all add: loop_entry_def)
  have q: "self_to_download_queues ?W
      = map (\<lambda>d. map Some (filter (\<lambda>u. int (fst u) mod self_num_downloaders w = int d)
                             (enumerate 0 (map (item_paths (self_root w)) (self_items w))))
                 @ [None])
          [0..<nat (self_num_downloaders w)]"
    by (simp add: loop_entry_def)
  have c1: "self_to_download_queues (final (run sha256_hexdigest w ready))
      = map (\<lambda>d. map Some (filter (\<lambda>u. int (fst u) mod self_num_downloaders w = int d)
                             (enumerate 0 (map (item_paths (self_root w)) (self_items w))))
                 @ [None])
          [0..<nat (self_num_downloaders w)]"
    unfolding enter run_loop_queues q ..
  have c2: "case download_data_target_os os root remote_root cache_dir (map Some units @ [None]) st of
         Returned st' \<Rightarrow>
           os_queue_out st' = os_queue_out st @ map (\<lambda>u. Some (fst u)) units @ [None]
       | Raised e st' \<Rightarrow> count_list (os_queue_out st') None = count_list (os_queue_out st) None
       | Blocked st' \<Rightarrow> False"
    by (rule downloader_os_sentinel)
  have c3: "\<forall>w'. run sha256_hexdigest w ready = Returned w' \<longrightarrow>
         (\<exists>pre post. ready = pre @ None # post
            \<and> int (count_list pre None) + 1 = self_num_downloaders w
            \<and> self_cache_done w'
            \<and> self_remove_queue w'
                 = self_remove_queue (final (run sha256_hexdigest w pre)) @ [None])"
  proof (intro allI impI)
    fix w' assume "run sha256_hexdigest w ready = Returned w'"
    then have "run_loop ?W 0 ready = Returned w'" unfolding enter .
    from run_loop_returned[OF this] obtain pre post where
      "ready = pre @ None # post" "0 + int (count_list pre None) + 1 = self_num_downloaders ?W"
      "self_cache_done w'"
      "self_remove_queue w' = self_remove_queue (final (run_loop ?W 0 pre)) @ [None]"
      by blast
    then have "ready = pre @ None # post
            \<and> int (count_list pre None) + 1 = self_num_downloaders w
            \<and> self_cache_done w'
            \<and> self_remove_queue w'
                 = self_remove_queue (final (run sha256_hexdigest w pre)) @ [None]"
      unfolding run_enters_loop[OF assms, of sha256_hexdigest pre] f by simp
    then show "\<exists>pre post. ready = pre @ None # post
            \<and> int (count_list pre None) + 1 = self_num_downloaders w
            \<and> self_cache_done w'
            \<and> self_remove_queue w'
                 = self_remove_queue (final (run sha256_hexdigest w pre)) @ [None]"
      by blast
  qed
  have c4: "int (count_list ready None) < self_num_downloaders w \<longrightarrow>
         (\<nexists>w'. run sha256_hexdigest w ready = Returned w')
         \<and> \<not> self_cache_done (final (run sha256_hexdigest w ready))
         \<and> count_list (self_remove_queue (final (run sha256_hexdigest w ready))) None
              = count_list (self_remove_queue w) None"
  proof
    assume few: "int (count_list ready None) < self_num_downloaders w"
    have no: "\<nexists>w'. run_loop ?W 0 ready = Returned w'"
    proof
      assume "\<exists>w'. run_loop ?W 0 ready = Returned w'"
      then obtain w' where "run_loop ?W 0 ready = Returned w'" by blast
      from run_loop_returned[OF this] obtain pre post where
        p: "ready = pre @ None # post" "0 + int (count_list pre None) + 1 = self_num_downloaders ?W"
        by blast
      have "count_list ready None = count_list pre None + 1 + count_list post None"
        unfolding p(1) by simp
      with p(2) few show False unfolding f by simp
    qed
    with run_loop_waiting[of ?W 0 ready]
    have "self_cache_done (final (run_loop ?W 0 ready)) = self_cache_done ?W
      \<and> count_list (self_remove_queue (final (run_loop ?W 0 ready))) None
           = count_list (self_remove_queue ?W) None"
      by blast
    with no show "(\<nexists>w'. run sha256_hexdigest w ready = Returned w')
         \<and> \<not> self_cache_done (final (run sha256_hexdigest w ready))
         \<and> count_list (self_remove_queue (final (run sha256_hexdigest w ready))) None
              = count_list (self_remove_queue w) None"
      unfolding enter f by simp
  qed
  have c5: "(\<forall>r\<in>set (consumed (self_num_downloaders w) 0 (before @ None # after)).
            r < length (self_items w))
        \<and> int (count_list before None) + 1 = self_num_downloaders w \<longrightarrow>
         (\<exists>w'. run sha256_hexdigest w (before @ None # after) = Returned w'
              \<and> self_cache_done w')"
  proof
    assume a: "(\<forall>r\<in>set (consumed (self_num_downloaders w) 0 (before @ None # after)).
            r < length (self_items w))
        \<and> int (count_list before None) + 1 = self_num_downloaders w"
    then have v: "\<forall>r\<in>set (consumed (self_num_downloaders ?W) 0 (before @ None # after)).
        r < length (self_items ?W) \<and> (self_remove ?W \<longrightarrow> r < length (self_paths ?W))"
      and n: "0 + int (count_list before None) + 1 = self_num_downloaders ?W"
      unfolding f by simp_all
    from run_loop_returns[OF v n] obtain w' where
      r: "run_loop ?W 0 (before @ None # after) = Returned w'" by blast
    from run_loop_returned[OF r] have "self_cache_done w'" by blast
    with r show "\<exists>w'. run sha256_hexdigest w (before @ None # after) = Returned w'
              \<and> self_cache_done w'"
      unfolding run_enters_loop[OF assms, of sha256_hexdigest "before @ None # after"] by blast
  qed
  show ?thesis
    apply (intro conjI)
        apply (rule c1)
       apply (rule c2)
      apply (rule c3)
     apply (rule c4)
    apply (rule c5)
    done
qed

theorem sentinels_before_run_returns_witness:
  "has_path ''/r'' (Leaf (PyStr ''/r/a'')) \<and> has_path ''/r'' (Leaf (PyStr ''/r/b''))
   \<and> self_to_download_queues (final (run (\<lambda>root. ''0a'')
         (base_worker 0 0 0 (None :: (item \<Rightarrow> nat) option) ''/r'' ''s3://b''
            [Leaf (PyStr ''/r/a''), Leaf (PyStr ''/r/b'')] None 2 False) []))
       = [[Some (0, [''/r/a'']), None], [Some (1, [''/r/b'']), None]]
   \<and> download_data_target_os files_and_dirs_os ''/r'' ''s3://b'' ''/cache/0a/data''
         (map Some [(0::nat, [''/r/a''])] @ [None])
         \<lparr>os_disk = ({}, {}), os_requests = [], os_queue_out = []\<rparr>
       = Returned \<lparr>os_disk = ({''/cache/0a/data/a''}, {''/cache/0a/data''}),
                   os_requests = [(''s3://b/a'', ''/cache/0a/data/a'')],
                   os_queue_out = [Some 0, None]\<rparr>
   \<and> (\<exists>w'. run (\<lambda>root. ''0a'')
         (base_worker 0 0 0 (None :: (item \<Rightarrow> nat) option) ''/r'' ''s3://b''
            [Leaf (PyStr ''/r/a''), Leaf (PyStr ''/r/b'')] None 2 False)
         ([Some 0, None, Some 1] @ None # []) = Returned w' \<and> self_cache_done w')
   \<and> (\<nexists>w'. run (\<lambda>root. ''0a'')
         (base_worker 0 0 0 (None :: (item \<Rightarrow> nat) option) ''/r'' ''s3://b''
            [Leaf (PyStr ''/r/a''), Leaf (PyStr ''/r/b'')] None 2 False)
         [Some 0, None, Some 1] = Returned w')
   \<and> \<not> self_cache_done (final (run (\<lambda>root. ''0a'')
         (base_worker 0 0 0 (None :: (item \<Rightarrow> nat) option) ''/r'' ''s3://b''
            [Leaf (PyStr ''/r/a''), Leaf (PyStr ''/r/b'')] None 2 False)
         [Some 0, None, Some 1]))"
proof -
  let ?w = "base_worker 0 0 0 (None :: (item \<Rightarrow> nat) option) ''/r'' ''s3://b''
              [Leaf (PyStr ''/r/a''), Leaf (PyStr ''/r/b'')] None 2 False"
  let ?h = "\<lambda>root :: string. ''0a''"
  let ?st = "\<lparr>os_disk = ({}, {}) :: string set \<times> string set, os_requests = [],
              os_queue_out = ([] :: nat option list)\<rparr>"
  have f: "self_items ?w = [Leaf (PyStr ''/r/a''), Leaf (PyStr ''/r/b'')]" "self_root ?w = ''/r''"
    "self_paths ?w = []" "self_to_download_queues ?w = []" "self_num_downloaders ?w = 2"
    by (simp_all add: base_worker_def)
  have hp: "has_path ''/r'' (Leaf (PyStr ''/r/a''))" "has_path ''/r'' (Leaf (PyStr ''/r/b''))"
    by (simp_all add: has_path_def tree_flatten_def is_path_def startswith_def)
  have ip: "item_paths ''/r'' (Leaf (PyStr ''/r/a'')) = [''/r/a'']"
    "item_paths ''/r'' (Leaf (PyStr ''/r/b'')) = [''/r/b'']"
    by (simp_all add: item_paths_def indexed_paths_def path_entry_def tree_flatten_def
        enumerate_eq_zip startswith_def)
  have a1: "\<forall>item\<in>set (self_items ?w). has_path (self_root ?w) item"
    unfolding f using hp by simp
  have a4: "0 < self_num_downloaders ?w" unfolding f by simp
  note t0 = sentinels_before_run_returns[OF a1 f(3) f(4) a4, of ?h]
  have rhs: "map (\<lambda>d. map Some (filter (\<lambda>u. int (fst u) mod 2 = int d)
                             (enumerate 0 (map (item_paths ''/r'')
                                [Leaf (PyStr ''/r/a''), Leaf (PyStr ''/r/b'')])))
                 @ [None])
          [0..<nat 2]
       = [[Some (0, [''/r/a'']), None], [Some (1, [''/r/b'']), None]]"
    by code_simp
  have q: "self_to_download_queues (final (run ?h ?w []))
       = [[Some (0, [''/r/a'']), None], [Some (1, [''/r/b'']), None]]"
    using t0[of "[]", THEN conjunct1] unfolding f rhs .
  have d: "download_data_target_os files_and_dirs_os ''/r'' ''s3://b'' ''/cache/0a/data''
         (map Some [(0::nat, [''/r/a''])] @ [None]) ?st
       = Returned \<lparr>os_disk = ({''/cache/0a/data/a''}, {''/cache/0a/data''}),
                   os_requests = [(''s3://b/a'', ''/cache/0a/data/a'')],
                   os_queue_out = [Some 0, None]\<rparr>"
    by (simp add: download_data_target_os_def files_and_dirs_os_def py_replace_def startswith_def
        py_dirname_def Let_def)
  have valid: "(\<forall>r\<in>set (consumed (self_num_downloaders ?w) 0 ([Some 0, None, Some 1] @ None # [])).
            r < length (self_items ?w))
        \<and> int (count_list [Some (0::nat), None, Some 1] None) + 1 = self_num_downloaders ?w"
    unfolding f by simp
  have ret: "\<exists>w'. run ?h ?w ([Some 0, None, Some 1] @ None # []) = Returned w' \<and> self_cache_done w'"
    using t0[where before = "[Some 0, None, Some 1]" and after = "[]",
        THEN conjunct2, THEN conjunct2, THEN conjunct2, THEN conjunct2] valid
    by (rule mp)
  have few: "int (count_list [Some (0::nat), None, Some 1] None) < self_num_downloaders ?w"
    unfolding f by simp
  note waiting = t0[of "[Some 0, None, Some 1]", THEN conjunct2, THEN conjunct2, THEN conjunct2,
      THEN conjunct1, THEN mp, OF few]
  show ?thesis
    apply (intro conjI)
          apply (rule hp(1))
         apply (rule hp(2))
        apply (rule q)
       apply (rule d)
      apply (rule ret)
     apply (rule waiting[THEN conjunct1])
    apply (rule waiting[THEN conjunct2, THEN conjunct1])
    done
qed


section \<open>Properties of a work unit\<close>

text \<open>
  C6, as stated: for an item with \<open>N\<close> root-relative file paths the downloader issues
  exactly \<open>N\<close> download requests and the remover removes exactly those \<open>N\<close> paths from
  the cache. Take a disk of plain files and directories, the root \<open>/r\<close> and the cache
  directory \<open>/cache/0a/data\<close>. The item with the two paths \<open>/r/r\<close> and
  \<open>/r/cache/0a/data\<close> has one cache location for both,
  \<open>/cache/0a/data/cache/0a/data\<close>, because \<^verbatim>\<open>path.replace(root, cache_dir)\<close> replaces
  every occurrence of the root: the downloader requests two downloads into that one file,
  and the remover, given the two paths, calls \<^verbatim>\<open>os.remove\<close> once, since the location
  no longer exists when it comes to the second path. The item with the two paths
  \<open>/r/a\<close> and \<open>/r/a/b\<close> gets one download request: the first download leaves the file
  \<open>/cache/0a/data/a\<close>, which the second path needs as a directory, so
  \<^verbatim>\<open>os.makedirs\<close> raises \<^verbatim>\<open>FileExistsError\<close> and the index is never reported.
\<close>

theorem shared_cache_location_counterexample:
  "item_paths ''/r'' (Node ListC [Leaf (PyStr ''/r/r''), Leaf (PyStr ''/r/cache/0a/data'')])
     = [''/r/r'', ''/r/cache/0a/data'']
   \<and> download_data_target_os files_and_dirs_os ''/r'' ''s3://b'' ''/cache/0a/data''
       [Some (0::nat, [''/r/r'', ''/r/cache/0a/data'']), None]
       \<lparr>os_disk = ({}, {}), os_requests = [], os_queue_out = []\<rparr>
     = Returned \<lparr>os_disk = ({''/cache/0a/data/cache/0a/data''}, {''/cache/0a/data/cache/0a''}),
                 os_requests = [(''s3://bs3://b'', ''/cache/0a/data/cache/0a/data''),
                                (''s3://b/cache/0a/data'', ''/cache/0a/data/cache/0a/data'')],
                 os_queue_out = [Some 0, None]\<rparr>
   \<and> remove_target files_and_dirs_os ''/r'' ''/cache/0a/data''
       [Some [''/r/r'', ''/r/cache/0a/data''], None]
       \<lparr>rm_disk = ({''/cache/0a/data/cache/0a/data''}, {''/cache/0a/data/cache/0a''}),
        rm_calls = []\<rparr>
     = Returned \<lparr>rm_disk = ({}, {''/cache/0a/data/cache/0a''}),
                 rm_calls = [''/cache/0a/data/cache/0a/data'']\<rparr>
   \<and> item_paths ''/r'' (Node ListC [Leaf (PyStr ''/r/a''), Leaf (PyStr ''/r/a/b'')])
     = [''/r/a'', ''/r/a/b'']
   \<and> download_data_target_os files_and_dirs_os ''/r'' ''s3://b'' ''/cache/0a/data''
       [Some (0::nat, [''/r/a'', ''/r/a/b'']), None]
       \<lparr>os_disk = ({}, {}), os_requests = [], os_queue_out = []\<rparr>
     = Raised FileExistsError
         \<lparr>os_disk = ({''/cache/0a/data/a''}, {''/cache/0a/data''}),
          os_requests = [(''s3://b/a'', ''/cache/0a/data/a'')],
          os_queue_out = []\<rparr>"
proof -
  have r1: "py_replace ''/r/r'' ''/r'' ''/cache/0a/data'' = ''/cache/0a/data/cache/0a/data''"
    "py_replace ''/r/cache/0a/data'' ''/r'' ''/cache/0a/data'' = ''/cache/0a/data/cache/0a/data''"
    "py_replace ''/r/r'' ''/r'' ''s3://b'' = ''s3://bs3://b''"
    "py_replace ''/r/cache/0a/data'' ''/r'' ''s3://b'' = ''s3://b/cache/0a/data''"
    "py_replace ''/r/a'' ''/r'' ''/cache/0a/data'' = ''/cache/0a/data/a''"
    "py_replace ''/r/a/b'' ''/r'' ''/cache/0a/data'' = ''/cache/0a/data/a/b''"
    "py_replace ''/r/a'' ''/r'' ''s3://b'' = ''s3://b/a''"
    "py_replace ''/r/a/b'' ''/r'' ''s3://b'' = ''s3://b/a/b''"
    by (simp_all add: py_replace_def startswith_def)
  have d1: "py_dirname ''/cache/0a/data/cache/0a/data'' = ''/cache/0a/data/cache/0a''"
    "py_dirname ''/cache/0a/data/a'' = ''/cache/0a/data''"
    "py_dirname ''/cache/0a/data/a/b'' = ''/cache/0a/data/a''"
    by (simp_all add: py_dirname_def Let_def)
  have p1: "item_paths ''/r'' (Node ListC [Leaf (PyStr ''/r/r''), Leaf (PyStr ''/r/cache/0a/data'')])
     = [''/r/r'', ''/r/cache/0a/data'']"
    by (simp add: item_paths_def indexed_paths_def path_entry_def tree_flatten_def
        enumerate_eq_zip startswith_def)
  have p2: "item_paths ''/r'' (Node ListC [Leaf (PyStr ''/r/a''), Leaf (PyStr ''/r/a/b'')])
     = [''/r/a'', ''/r/a/b'']"
    by (simp add: item_paths_def indexed_paths_def path_entry_def tree_flatten_def
        enumerate_eq_zip startswith_def)
  have dl: "download_data_target_os files_and_dirs_os ''/r'' ''s3://b'' ''/cache/0a/data''
       [Some (0::nat, [''/r/r'', ''/r/cache/0a/data'']), None]
       \<lparr>os_disk = ({}, {}), os_requests = [], os_queue_out = []\<rparr>
     = Returned \<lparr>os_disk = ({''/cache/0a/data/cache/0a/data''}, {''/cache/0a/data/cache/0a''}),
                 os_requests = [(''s3://bs3://b'', ''/cache/0a/data/cache/0a/data''),
                                (''s3://b/cache/0a/data'', ''/cache/0a/data/cache/0a/data'')],
                 os_queue_out = [Some 0, None]\<rparr>"
    by (simp add: download_data_target_os_def files_and_dirs_os_def r1 d1 Let_def)
  have rm: "remove_target files_and_dirs_os ''/r'' ''/cache/0a/data''
       [Some [''/r/r'', ''/r/cache/0a/data''], None]
       \<lparr>rm_disk = ({''/cache/0a/data/cache/0a/data''}, {''/cache/0a/data/cache/0a''}),
        rm_calls = []\<rparr>
     = Returned \<lparr>rm_disk = ({}, {''/cache/0a/data/cache/0a''}),
                 rm_calls = [''/cache/0a/data/cache/0a/data'']\<rparr>"
    by (simp add: files_and_dirs_os_def r1 Let_def)
  have nested: "download_data_target_os files_and_dirs_os ''/r'' ''s3://b'' ''/cache/0a/data''
       [Some (0::nat, [''/r/a'', ''/r/a/b'']), None]
       \<lparr>os_disk = ({}, {}), os_requests = [], os_queue_out = []\<rparr>
     = Raised FileExistsError
         \<lparr>os_disk = ({''/cache/0a/data/a''}, {''/cache/0a/data''}),
          os_requests = [(''s3://b/a'', ''/cache/0a/data/a'')],
          os_queue_out = []\<rparr>"
    by (simp add: download_data_target_os_def files_and_dirs_os_def r1 d1 Let_def)
  show ?thesis
    apply (intro conjI)
        apply (rule p1)
       apply (rule dl)
      apply (rule rm)
     apply (rule p2)
    apply (rule nested)
    done
qed


text \<open>
  C6, amended: let \<open>paths\<close> be the file paths of the item at position \<open>r\<close> of a worker
  all of whose items hold a file path, with at least one downloader; there are
  \<open>N \<ge> 1\<close> of them. \<^verbatim>\<open>run\<close> records \<open>paths\<close> at position \<open>r\<close> and puts the unit
  \<open>(r, paths)\<close> on the downloader queues exactly once. A downloader that takes the unit
  while not all of its cache locations exist, and returns, has requested exactly one
  download for each path, in the order of \<open>paths\<close>, and has reported \<open>r\<close> before its
  \<^verbatim>\<open>None\<close>; it returns only if no call into \<^verbatim>\<open>urlparse\<close>, the operating system or
  boto3 raised. With \<^verbatim>\<open>remove\<close> set, the main loop of \<^verbatim>\<open>run\<close>, on taking \<open>r\<close> from
  the ready queue, assigns the cache slot of \<open>r\<close> and then puts exactly \<open>paths\<close> on the
  remove queue. A remover that takes \<open>paths\<close> and returns has called \<^verbatim>\<open>os.remove\<close>
  exactly once for the cache location of each path, in order, provided that the \<open>N\<close>
  cache locations are pairwise distinct, that each of them exists when the remover
  starts, and that removing one of them leaves the others existing.
\<close>

theorem unit_downloads_and_removals:
  fixes w :: "'v worker" and os :: "'fs os_calls"
  assumes "\<forall>item\<in>set (self_items w). has_path (self_root w) item"
    and "self_paths w = []" and "self_to_download_queues w = []"
    and "0 < self_num_downloaders w"
    and "r < length (self_items w)"
    and "paths = item_paths (self_root w) (self_items w ! r)"
    and "cache_dir = ''/cache/'' @ sha256_hexdigest (self_root w) @ ''/data''"
  shows "paths \<noteq> []
    \<and> self_paths (final (run sha256_hexdigest w ready)) ! r = paths
    \<and> count_list (concat (self_to_download_queues (final (run sha256_hexdigest w ready))))
         (Some (r, paths)) = 1
    \<and> (\<not> list_all (\<lambda>p. path_exists os (os_disk st) (py_replace p (self_root w) cache_dir)) paths
        \<and> download_data_target_os os (self_root w) (self_remote_root w) cache_dir
             [Some (r, paths), None] st = Returned st' \<longrightarrow>
          os_requests st' = os_requests st
             @ map (\<lambda>p. (py_replace p (self_root w) (self_remote_root w),
                          py_replace p (self_root w) cache_dir)) paths
          \<and> os_queue_out st' = os_queue_out st @ [Some r, None])
    \<and> (self_remove w \<and> run sha256_hexdigest w pre = Blocked wp \<longrightarrow>
          (\<exists>wq. run sha256_hexdigest w (pre @ [Some r]) = Blocked wq
             \<and> self_cache wq = (self_cache wp)(int r + self_start_index w \<mapsto>
                  slot_value w (rewritten (self_root w) cache_dir (self_items w ! r)))
             \<and> self_effects wq = self_effects wp
                  @ [CacheWrite (int r + self_start_index w), RemovePut (Some paths)]
             \<and> self_remove_queue wq = self_remove_queue wp @ [Some paths]))
    \<and> (distinct (map (\<lambda>p. py_replace p (self_root w) cache_dir) paths)
        \<and> (\<forall>p\<in>set paths. path_exists os (rm_disk rm) (py_replace p (self_root w) cache_dir))
        \<and> (\<forall>p\<in>set paths. \<forall>q\<in>set paths. \<forall>d d'.
              py_replace q (self_root w) cache_dir \<noteq> py_replace p (self_root w) cache_dir
              \<and> path_exists os d (py_replace q (self_root w) cache_dir)
              \<and> os_remove os (py_replace p (self_root w) cache_dir) d = Inr d'
              \<longrightarrow> path_exists os d' (py_replace q (self_root w) cache_dir))
        \<and> remove_target os (self_root w) cache_dir [Some paths, None] rm = Returned rm' \<longrightarrow>
          rm_calls rm' = rm_calls rm @ map (\<lambda>p. py_replace p (self_root w) cache_dir) paths)"
proof -
  let ?W = "loop_entry sha256_hexdigest w"
  let ?root = "self_root w"
  note enter = run_enters_loop[OF assms(1-4), of sha256_hexdigest]
  have f: "self_paths ?W = map (item_paths ?root) (self_items w)"
    "self_items ?W = map (rewritten ?root cache_dir) (self_items w)"
    "self_remove ?W = self_remove w" "self_start_index ?W = self_start_index w"
    "self_prepare_item ?W = self_prepare_item w"
    "self_to_download_queues ?W
      = map (\<lambda>d. map Some (filter (\<lambda>u. int (fst u) mod self_num_downloaders w = int d)
                             (enumerate 0 (map (item_paths ?root) (self_items w))))
                 @ [None])
          [0..<nat (self_num_downloaders w)]"
    by (simp_all add: loop_entry_def assms(7))
  have pr: "map (item_paths ?root) (self_items w) ! r = paths"
    using assms(5,6) by simp
  have c0: "paths \<noteq> []"
    using assms(1,5,6) item_paths_nonempty[of ?root "self_items w ! r"] by simp
  have c1: "self_paths (final (run sha256_hexdigest w ready)) ! r = paths"
    unfolding enter using run_loop_keeps[of ?W 0 ready] f(1) pr by simp
  have rl: "r < length (map (item_paths ?root) (self_items w))" using assms(5) by simp
  have c2: "count_list (concat (self_to_download_queues (final (run sha256_hexdigest w ready))))
         (Some (r, paths)) = 1"
    unfolding enter run_loop_queues f(6)
    using unit_queued_once[OF assms(4) rl] unfolding pr .
  have c3: "\<not> list_all (\<lambda>p. path_exists os (os_disk st) (py_replace p ?root cache_dir)) paths
        \<and> download_data_target_os os ?root (self_remote_root w) cache_dir
             [Some (r, paths), None] st = Returned st' \<longrightarrow>
          os_requests st' = os_requests st
             @ map (\<lambda>p. (py_replace p ?root (self_remote_root w),
                          py_replace p ?root cache_dir)) paths
          \<and> os_queue_out st' = os_queue_out st @ [Some r, None]"
    using download_unit_os_returned[of os st ?root cache_dir paths "self_remote_root w" r st']
    by blast
  have c4: "self_remove w \<and> run sha256_hexdigest w pre = Blocked wp \<longrightarrow>
          (\<exists>wq. run sha256_hexdigest w (pre @ [Some r]) = Blocked wq
             \<and> self_cache wq = (self_cache wp)(int r + self_start_index w \<mapsto>
                  slot_value w (rewritten ?root cache_dir (self_items w ! r)))
             \<and> self_effects wq = self_effects wp
                  @ [CacheWrite (int r + self_start_index w), RemovePut (Some paths)]
             \<and> self_remove_queue wq = self_remove_queue wp @ [Some paths])"
  proof
    assume a: "self_remove w \<and> run sha256_hexdigest w pre = Blocked wp"
    then have b: "run_loop ?W 0 pre = Blocked wp"
      unfolding run_enters_loop[OF assms(1-4), of sha256_hexdigest pre] by simp
    have k: "self_items wp = self_items ?W" "self_paths wp = self_paths ?W"
      "self_remove wp = self_remove ?W" "self_start_index wp = self_start_index ?W"
      "self_prepare_item wp = self_prepare_item ?W"
      using run_loop_keeps[of ?W 0 pre] unfolding b by simp_all
    have i1: "r < length (self_items wp)" unfolding k f using assms(5) by simp
    have i2: "self_remove wp \<longrightarrow> r < length (self_paths wp)" unfolding k f using assms(5) by simp
    have rm: "self_remove wp" unfolding k f using a by simp
    have it: "self_items wp ! r = rewritten ?root cache_dir (self_items w ! r)"
      unfolding k f using assms(5) by simp
    have pt: "self_paths wp ! r = paths" unfolding k f by (rule pr)
    have sv: "slot_value wp = slot_value w"
      by (rule slot_value_cong) (simp add: k f)
    from process_index_returns[OF i1 i2] obtain wq where
      q: "process_index wp r = Returned wq"
      "self_cache wq = (self_cache wp)(int r + self_start_index wp \<mapsto> slot_value wp (self_items wp ! r))"
      "self_effects wq = self_effects wp @ CacheWrite (int r + self_start_index wp)
          # (if self_remove wp then [RemovePut (Some (self_paths wp ! r))] else [])"
      "self_remove_queue wq = self_remove_queue wp
          @ (if self_remove wp then [Some (self_paths wp ! r)] else [])"
      by blast
    have "run sha256_hexdigest w (pre @ [Some r]) = Blocked wq"
      unfolding run_enters_loop[OF assms(1-4), of sha256_hexdigest "pre @ [Some r]"]
        run_loop_append[OF b] using q(1) by simp
    moreover have "self_cache wq = (self_cache wp)(int r + self_start_index w \<mapsto>
                  slot_value w (rewritten ?root cache_dir (self_items w ! r)))"
      using q(2) unfolding it sv k(4) f(4) .
    moreover have "self_effects wq = self_effects wp
                  @ [CacheWrite (int r + self_start_index w), RemovePut (Some paths)]"
      using q(3) rm unfolding pt k(4) f(4) by simp
    moreover have "self_remove_queue wq = self_remove_queue wp @ [Some paths]"
      using q(4) rm unfolding pt by simp
    ultimately show "\<exists>wq. run sha256_hexdigest w (pre @ [Some r]) = Blocked wq
             \<and> self_cache wq = (self_cache wp)(int r + self_start_index w \<mapsto>
                  slot_value w (rewritten ?root cache_dir (self_items w ! r)))
             \<and> self_effects wq = self_effects wp
                  @ [CacheWrite (int r + self_start_index w), RemovePut (Some paths)]
             \<and> self_remove_queue wq = self_remove_queue wp @ [Some paths]"
      by blast
  qed
  have c5: "distinct (map (\<lambda>p. py_replace p ?root cache_dir) paths)
        \<and> (\<forall>p\<in>set paths. path_exists os (rm_disk rm) (py_replace p ?root cache_dir))
        \<and> (\<forall>p\<in>set paths. \<forall>q\<in>set paths. \<forall>d d'.
              py_replace q ?root cache_dir \<noteq> py_replace p ?root cache_dir
              \<and> path_exists os d (py_replace q ?root cache_dir)
              \<and> os_remove os (py_replace p ?root cache_dir) d = Inr d'
              \<longrightarrow> path_exists os d' (py_replace q ?root cache_dir))
        \<and> remove_target os ?root cache_dir [Some paths, None] rm = Returned rm' \<longrightarrow>
          rm_calls rm' = rm_calls rm @ map (\<lambda>p. py_replace p ?root cache_dir) paths"
  proof
    assume a: "distinct (map (\<lambda>p. py_replace p ?root cache_dir) paths)
        \<and> (\<forall>p\<in>set paths. path_exists os (rm_disk rm) (py_replace p ?root cache_dir))
        \<and> (\<forall>p\<in>set paths. \<forall>q\<in>set paths. \<forall>d d'.
              py_replace q ?root cache_dir \<noteq> py_replace p ?root cache_dir
              \<and> path_exists os d (py_replace q ?root cache_dir)
              \<and> os_remove os (py_replace p ?root cache_dir) d = Inr d'
              \<longrightarrow> path_exists os d' (py_replace q ?root cache_dir))
        \<and> remove_target os ?root cache_dir [Some paths, None] rm = Returned rm'"
    show "rm_calls rm' = rm_calls rm @ map (\<lambda>p. py_replace p ?root cache_dir) paths"
      by (rule remove_unit_returned[OF a[THEN conjunct1] a[THEN conjunct2, THEN conjunct1]
            a[THEN conjunct2, THEN conjunct2, THEN conjunct1]
            a[THEN conjunct2, THEN conjunct2, THEN conjunct2]])
  qed
  show ?thesis
    apply (intro conjI)
         apply (rule c0)
        apply (rule c1)
       apply (rule c2)
      apply (rule c3)
     apply (rule c4)
    apply (rule c5)
    done
qed

theorem unit_downloads_and_removals_witness:
  "has_path ''/r'' (Node ListC [Leaf (PyStr ''/r/a''), Leaf (PyStr ''/r/b'')])
   \<and> item_paths ''/r'' (Node ListC [Leaf (PyStr ''/r/a''), Leaf (PyStr ''/r/b'')])
       = [''/r/a'', ''/r/b'']
   \<and> self_paths (final (run (\<lambda>root. ''0a'')
         (base_worker 0 10 0 (None :: (item \<Rightarrow> nat) option) ''/r'' ''s3://b''
            [Node ListC [Leaf (PyStr ''/r/a''), Leaf (PyStr ''/r/b'')]] None 1 True) [])) ! 0
       = [''/r/a'', ''/r/b'']
   \<and> count_list (concat (self_to_download_queues (final (run (\<lambda>root. ''0a'')
         (base_worker 0 10 0 (None :: (item \<Rightarrow> nat) option) ''/r'' ''s3://b''
            [Node ListC [Leaf (PyStr ''/r/a''), Leaf (PyStr ''/r/b'')]] None 1 True) []))))
         (Some (0, [''/r/a'', ''/r/b''])) = 1
   \<and> download_data_target_os files_and_dirs_os ''/r'' ''s3://b'' ''/cache/0a/data''
         [Some (0::nat, [''/r/a'', ''/r/b'']), None]
         \<lparr>os_disk = ({}, {}), os_requests = [], os_queue_out = []\<rparr>
       = Returned \<lparr>os_disk = ({''/cache/0a/data/a'', ''/cache/0a/data/b''}, {''/cache/0a/data''}),
                   os_requests = [(''s3://b/a'', ''/cache/0a/data/a''),
                                  (''s3://b/b'', ''/cache/0a/data/b'')],
                   os_queue_out = [Some 0, None]\<rparr>
   \<and> os_requests (final (download_data_target_os files_and_dirs_os ''/r'' ''s3://b'' ''/cache/0a/data''
         [Some (0::nat, [''/r/a'', ''/r/b'']), None]
         \<lparr>os_disk = ({}, {}), os_requests = [], os_queue_out = []\<rparr>))
       = [(''s3://b/a'', ''/cache/0a/data/a''), (''s3://b/b'', ''/cache/0a/data/b'')]
   \<and> (\<exists>wq. run (\<lambda>root. ''0a'')
         (base_worker 0 10 0 (None :: (item \<Rightarrow> nat) option) ''/r'' ''s3://b''
            [Node ListC [Leaf (PyStr ''/r/a''), Leaf (PyStr ''/r/b'')]] None 1 True) ([] @ [Some 0])
          = Blocked wq
        \<and> self_cache wq 10
            = Some (Raw (Node ListC [Leaf (PyStr ''/cache/0a/data/a''),
                                     Leaf (PyStr ''/cache/0a/data/b'')]))
        \<and> self_effects wq = [CacheWrite 10, RemovePut (Some [''/r/a'', ''/r/b''])]
        \<and> self_remove_queue wq = [Some [''/r/a'', ''/r/b'']])
   \<and> remove_target files_and_dirs_os ''/r'' ''/cache/0a/data'' [Some [''/r/a'', ''/r/b''], None]
         \<lparr>rm_disk = ({''/cache/0a/data/a'', ''/cache/0a/data/b''}, {''/cache/0a/data''}),
          rm_calls = []\<rparr>
       = Returned \<lparr>rm_disk = ({}, {''/cache/0a/data''}),
                   rm_calls = [''/cache/0a/data/a'', ''/cache/0a/data/b'']\<rparr>
   \<and> rm_calls (final (remove_target files_and_dirs_os ''/r'' ''/cache/0a/data''
         [Some [''/r/a'', ''/r/b''], None]
         \<lparr>rm_disk = ({''/cache/0a/data/a'', ''/cache/0a/data/b''}, {''/cache/0a/data''}),
          rm_calls = []\<rparr>))
       = [''/cache/0a/data/a'', ''/cache/0a/data/b'']"
proof -
  let ?item = "Node ListC [Leaf (PyStr ''/r/a''), Leaf (PyStr ''/r/b'')]"
  let ?w = "base_worker 0 10 0 (None :: (item \<Rightarrow> nat) option) ''/r'' ''s3://b''
              [?item] None 1 True"
  let ?h = "\<lambda>root :: string. ''0a''"
  let ?paths = "[''/r/a'', ''/r/b'']"
  let ?cd = "''/cache/0a/data''"
  let ?st = "\<lparr>os_disk = ({}, {}) :: string set \<times> string set, os_requests = [],
              os_queue_out = ([] :: nat option list)\<rparr>"
  let ?st' = "\<lparr>os_disk = ({''/cache/0a/data/a'', ''/cache/0a/data/b''}, {''/cache/0a/data''}),
               os_requests = [(''s3://b/a'', ''/cache/0a/data/a''),
                              (''s3://b/b'', ''/cache/0a/data/b'')],
               os_queue_out = [Some (0::nat), None]\<rparr>"
  let ?rm = "\<lparr>rm_disk = ({''/cache/0a/data/a'', ''/cache/0a/data/b''}, {''/cache/0a/data''}),
              rm_calls = []\<rparr>"
  let ?rm' = "\<lparr>rm_disk = ({} :: string set, {''/cache/0a/data''}),
               rm_calls = [''/cache/0a/data/a'', ''/cache/0a/data/b'']\<rparr>"
  have f: "self_items ?w = [?item]" "self_root ?w = ''/r''"
    "self_paths ?w = []" "self_to_download_queues ?w = []" "self_num_downloaders ?w = 1"
    "self_start_index ?w = 10" "self_prepare_item ?w = None" "self_remote_root ?w = ''s3://b''"
    "self_remove ?w = True"
    by (simp_all add: base_worker_def)
  have hp: "has_path ''/r'' ?item"
    by (simp add: has_path_def tree_flatten_def is_path_def startswith_def)
  have ip: "item_paths ''/r'' ?item = ?paths"
    by (simp add: item_paths_def indexed_paths_def path_entry_def tree_flatten_def
        enumerate_eq_zip startswith_def)
  have r1: "py_replace ''/r/a'' ''/r'' ?cd = ''/cache/0a/data/a''"
    "py_replace ''/r/b'' ''/r'' ?cd = ''/cache/0a/data/b''"
    "py_replace ''/r/a'' ''/r'' ''s3://b'' = ''s3://b/a''"
    "py_replace ''/r/b'' ''/r'' ''s3://b'' = ''s3://b/b''"
    by (simp_all add: py_replace_def startswith_def)
  have d1: "py_dirname ''/cache/0a/data/a'' = ?cd" "py_dirname ''/cache/0a/data/b'' = ?cd"
    by (simp_all add: py_dirname_def Let_def)
  have rw: "rewritten ''/r'' ?cd ?item
      = Node ListC [Leaf (PyStr ''/cache/0a/data/a''), Leaf (PyStr ''/cache/0a/data/b'')]"
    by (simp add: rewritten_def tree_flatten_def indexed_paths_def path_entry_def
        enumerate_eq_zip startswith_def r1)
  have a1: "\<forall>item\<in>set (self_items ?w). has_path (self_root ?w) item"
    unfolding f using hp by simp
  have a4: "0 < self_num_downloaders ?w" unfolding f by simp
  have a5: "(0::nat) < length (self_items ?w)" unfolding f by simp
  have a6: "?paths = item_paths (self_root ?w) (self_items ?w ! 0)"
    unfolding f using ip by simp
  have a7: "?cd = ''/cache/'' @ ?h (self_root ?w) @ ''/data''" by simp
  note t = unit_downloads_and_removals[where w = ?w and r = 0 and paths = ?paths
      and cache_dir = ?cd and sha256_hexdigest = ?h and os = files_and_dirs_os,
      OF a1 f(3) f(4) a4 a5 a6 a7]
  have c1: "self_paths (final (run ?h ?w [])) ! 0 = ?paths"
    using t[where ready = "[]", THEN conjunct2, THEN conjunct1] .
  have c2: "count_list (concat (self_to_download_queues (final (run ?h ?w []))))
         (Some (0, ?paths)) = 1"
    using t[where ready = "[]", THEN conjunct2, THEN conjunct2, THEN conjunct1] .
  have dl: "download_data_target_os files_and_dirs_os ''/r'' ''s3://b'' ?cd
         [Some (0::nat, ?paths), None] ?st = Returned ?st'"
    by (simp add: download_data_target_os_def files_and_dirs_os_def r1 d1 Let_def insert_commute)
  have ne: "\<not> list_all (\<lambda>p. path_exists files_and_dirs_os (os_disk ?st)
                (py_replace p (self_root ?w) ?cd)) ?paths"
    unfolding f by (simp add: files_and_dirs_os_def)
  have dl': "download_data_target_os files_and_dirs_os (self_root ?w) (self_remote_root ?w) ?cd
         [Some (0::nat, ?paths), None] ?st = Returned ?st'"
    unfolding f by (rule dl)
  note t3 = t[where st = ?st and st' = ?st', THEN conjunct2, THEN conjunct2, THEN conjunct2,
      THEN conjunct1, THEN mp, OF conjI[OF ne dl'], THEN conjunct1]
  have c3: "os_requests (final (download_data_target_os files_and_dirs_os ''/r'' ''s3://b'' ?cd
         [Some (0::nat, ?paths), None] ?st))
       = [(''s3://b/a'', ''/cache/0a/data/a''), (''s3://b/b'', ''/cache/0a/data/b'')]"
    unfolding dl final.simps using t3 unfolding f by (simp add: r1)
  have bl: "self_remove ?w \<and> run ?h ?w [] = Blocked (loop_entry ?h ?w)"
    unfolding run_enters_loop[OF a1 f(3) f(4) a4, of ?h "[]"] f by simp
  note t4 = t[where pre = "[]" and wp = "loop_entry ?h ?w", THEN conjunct2, THEN conjunct2,
      THEN conjunct2, THEN conjunct2, THEN conjunct1, THEN mp, OF bl]
  have le: "self_cache (loop_entry ?h ?w) = Map.empty" "self_effects (loop_entry ?h ?w) = []"
    "self_remove_queue (loop_entry ?h ?w) = []"
    by (simp_all add: loop_entry_def base_worker_def)
  from t4 obtain wq where
    q: "run ?h ?w ([] @ [Some 0]) = Blocked wq"
    "self_cache wq = (self_cache (loop_entry ?h ?w))(int 0 + self_start_index ?w \<mapsto>
        slot_value ?w (rewritten (self_root ?w) ?cd (self_items ?w ! 0)))"
    "self_effects wq = self_effects (loop_entry ?h ?w)
        @ [CacheWrite (int 0 + self_start_index ?w), RemovePut (Some ?paths)]"
    "self_remove_queue wq = self_remove_queue (loop_entry ?h ?w) @ [Some ?paths]"
    by blast
  have c4: "run ?h ?w ([] @ [Some 0]) = Blocked wq
        \<and> self_cache wq 10
            = Some (Raw (Node ListC [Leaf (PyStr ''/cache/0a/data/a''),
                                     Leaf (PyStr ''/cache/0a/data/b'')]))
        \<and> self_effects wq = [CacheWrite 10, RemovePut (Some ?paths)]
        \<and> self_remove_queue wq = [Some ?paths]"
    using q unfolding le f by (simp add: slot_value_def f rw)
  have rmv: "remove_target files_and_dirs_os ''/r'' ?cd [Some ?paths, None] ?rm = Returned ?rm'"
    by (simp add: files_and_dirs_os_def r1 Let_def)
  have h1: "distinct (map (\<lambda>p. py_replace p (self_root ?w) ?cd) ?paths)"
    unfolding f by (simp add: r1)
  have h2: "\<forall>p\<in>set ?paths. path_exists files_and_dirs_os (rm_disk ?rm)
              (py_replace p (self_root ?w) ?cd)"
    unfolding f by (simp add: r1 files_and_dirs_os_def)
  have h3: "\<forall>p\<in>set ?paths. \<forall>q\<in>set ?paths. \<forall>d d'.
              py_replace q (self_root ?w) ?cd \<noteq> py_replace p (self_root ?w) ?cd
              \<and> path_exists files_and_dirs_os d (py_replace q (self_root ?w) ?cd)
              \<and> os_remove files_and_dirs_os (py_replace p (self_root ?w) ?cd) d = Inr d'
              \<longrightarrow> path_exists files_and_dirs_os d' (py_replace q (self_root ?w) ?cd)"
    unfolding f by (auto simp add: r1 files_and_dirs_os_def split: if_splits)
  have h4: "remove_target files_and_dirs_os (self_root ?w) ?cd [Some ?paths, None] ?rm
      = Returned ?rm'"
    unfolding f by (rule rmv)
  note t5 = t[where rm = ?rm and rm' = ?rm', THEN conjunct2, THEN conjunct2, THEN conjunct2,
      THEN conjunct2, THEN conjunct2, THEN mp, OF conjI[OF h1 conjI[OF h2 conjI[OF h3 h4]]]]
  have c5: "rm_calls (final (remove_target files_and_dirs_os ''/r'' ?cd [Some ?paths, None] ?rm))
       = [''/cache/0a/data/a'', ''/cache/0a/data/b'']"
    unfolding rmv final.simps using t5 unfolding f by (simp add: r1)
  show ?thesis
    apply (intro conjI)
            apply (rule hp)
           apply (rule ip)
          apply (rule c1)
         apply (rule c2)
        apply (rule dl)
       apply (rule c3)
      apply (rule exI[of _ wq])
      apply (rule c4)
     apply (rule rmv)
    apply (rule c5)
    done
qed

end
